theory Spec2Isabelle
  imports Main
begin

section \<open>The data model of dlink.cpp\<close>

text \<open>
  The class template \<open>DLink<T>\<close> is instantiated at \<open>T = int32_t\<close> only. Every
  value the program stores is an array position, a column length or a negated row number,
  so it is bounded in magnitude by the size of the node array; the model uses \<open>int\<close>
  and agrees with the code as long as the node array has fewer than \<open>2^31\<close> entries.
  Where a caller-supplied quantity enters \<open>int\<close> arithmetic or is converted to
  \<open>int\<close> before any array bounds it, the model writes the 32-bit range out and stops
  with \<open>Overflow\<close> outside of it, where the code has undefined or
  implementation-defined behaviour: the arithmetic of \<open>init\<close> on the item count, and
  the conversions \<open>(int)s.size()\<close> of a row length in \<open>addrow\<close> and \<open>main\<close>.

  A \<open>std::vector\<close> is a list. Reading or writing outside a vector is undefined
  behaviour in C++; every access of the model is guarded and yields \<open>OutOfRange\<close>
  there. A failed \<open>assert\<close> is \<open>AssertFail\<close> (the Makefile compiles without
  \<open>NDEBUG\<close>). Loops whose termination depends on the link structure are partial
  functions into \<open>option\<close>: \<open>None\<close> means that the loop does not return.
\<close>

datatype Node = Node (data: int) (prev: int) (nxt: int)

record DLink =
  headers :: "Node list"
  nodes :: "Node list"
  nrows :: int
  ncount :: int

datatype error = AssertFail | OutOfRange | LengthError | Overflow

type_synonym 'a result = "(error + 'a) option"

definition bindR :: "'a result \<Rightarrow> ('a \<Rightarrow> 'b result) \<Rightarrow> 'b result" where
  "bindR m f = (case m of None \<Rightarrow> None | Some (Inl e) \<Rightarrow> Some (Inl e) | Some (Inr x) \<Rightarrow> f x)"

definition oor :: "'a result" where
  "oor = Some (Inl OutOfRange)"

text \<open>Sequencing is monotone, so that loops calling other loops are admissible.\<close>

lemma bindR_bind:
  "bindR m f = Option.bind m (\<lambda>r. case r of Inl e \<Rightarrow> Some (Inl e) | Inr x \<Rightarrow> f x)"
  by (simp add: bindR_def split: option.splits sum.splits)

lemma bindR_mono [partial_function_mono]:
  assumes mf: "mono_option B" and mg: "\<And>y. mono_option (\<lambda>f. C y f)"
  shows "mono_option (\<lambda>f. bindR (B f) (\<lambda>y. C y f))"
  unfolding bindR_bind
proof (rule bind_mono [OF mf])
  fix r :: "error + 'c"
  show "mono_option (\<lambda>f. case r of Inl e \<Rightarrow> Some (Inl e) | Inr x \<Rightarrow> C x f)"
    by (cases r) (simp_all add: mg option.const_mono)
qed

subsection \<open>Accessors\<close>

definition hvalid :: "DLink \<Rightarrow> int \<Rightarrow> bool" where
  "hvalid s i \<longleftrightarrow> 0 \<le> i \<and> i < int (length (headers s))"

definition valid :: "DLink \<Rightarrow> int \<Rightarrow> bool" where
  "valid s i \<longleftrightarrow> 0 \<le> i \<and> i < int (length (nodes s))"

definition name :: "DLink \<Rightarrow> int \<Rightarrow> int" where
  "name s i = data (headers s ! nat i)"

definition llink :: "DLink \<Rightarrow> int \<Rightarrow> int" where
  "llink s i = prev (headers s ! nat i)"

definition rlink :: "DLink \<Rightarrow> int \<Rightarrow> int" where
  "rlink s i = nxt (headers s ! nat i)"

definition len :: "DLink \<Rightarrow> int \<Rightarrow> int" where
  "len s i = data (nodes s ! nat i)"

definition top :: "DLink \<Rightarrow> int \<Rightarrow> int" where
  "top s i = data (nodes s ! nat i)"

definition ulink :: "DLink \<Rightarrow> int \<Rightarrow> int" where
  "ulink s i = prev (nodes s ! nat i)"

definition dlink :: "DLink \<Rightarrow> int \<Rightarrow> int" where
  "dlink s i = nxt (nodes s ! nat i)"

text \<open>The reference-returning accessors used as assignment targets.\<close>

definition set_llink :: "DLink \<Rightarrow> int \<Rightarrow> int \<Rightarrow> DLink" where
  "set_llink s i v =
     s\<lparr>headers := (headers s)[nat i := Node (data (headers s ! nat i)) v (nxt (headers s ! nat i))]\<rparr>"

definition set_rlink :: "DLink \<Rightarrow> int \<Rightarrow> int \<Rightarrow> DLink" where
  "set_rlink s i v =
     s\<lparr>headers := (headers s)[nat i := Node (data (headers s ! nat i)) (prev (headers s ! nat i)) v]\<rparr>"

definition set_len :: "DLink \<Rightarrow> int \<Rightarrow> int \<Rightarrow> DLink" where
  "set_len s i v =
     s\<lparr>nodes := (nodes s)[nat i := Node v (prev (nodes s ! nat i)) (nxt (nodes s ! nat i))]\<rparr>"

definition set_ulink :: "DLink \<Rightarrow> int \<Rightarrow> int \<Rightarrow> DLink" where
  "set_ulink s i v =
     s\<lparr>nodes := (nodes s)[nat i := Node (data (nodes s ! nat i)) v (nxt (nodes s ! nat i))]\<rparr>"

definition set_dlink :: "DLink \<Rightarrow> int \<Rightarrow> int \<Rightarrow> DLink" where
  "set_dlink s i v =
     s\<lparr>nodes := (nodes s)[nat i := Node (data (nodes s ! nat i)) (prev (nodes s ! nat i)) v]\<rparr>"

definition push_node :: "DLink \<Rightarrow> Node \<Rightarrow> DLink" where
  "push_node s n = s\<lparr>nodes := nodes s @ [n]\<rparr>"

text \<open>
  \<open>nnodes\<close> and \<open>lastindex\<close> convert a size of the node array to \<open>int\<close>: the
  conversion keeps the value while the node array has fewer than \<open>2^31\<close> entries, the
  range of the model.
\<close>

definition nnodes :: "DLink \<Rightarrow> int" where
  "nnodes s = int (length (nodes s))"

definition lastindex :: "DLink \<Rightarrow> int" where
  "lastindex s = int (length (nodes s)) - 1"

definition isspacer :: "DLink \<Rightarrow> int \<Rightarrow> bool" where
  "isspacer s i \<longleftrightarrow> top s i \<le> 0"

definition nitems :: "DLink \<Rightarrow> int" where
  "nitems s = int (length (headers s)) - 1"

subsection \<open>Construction\<close>

text \<open>
  \<open>DLink(int nitems)\<close> sets \<open>ncount\<close> to 0 and calls \<open>init\<close>. \<open>nitems + 1\<close>
  overflows \<open>int\<close> at \<open>INT_MAX\<close>; a negative \<open>nitems + 1\<close> converts to a
  \<open>size_t\<close> beyond \<open>max_size()\<close> and \<open>resize\<close> throws \<open>std::length_error\<close>.
  Inside the loop \<open>i + nitems\<close> is computed in \<open>int\<close> for every \<open>i\<close> up to
  \<open>nitems\<close>, so that the last round computes \<open>nitems + nitems\<close>, which overflows
  from \<open>nitems = 2^30\<close> on. Below that, both operands of \<open>%\<close> are non-negative
  and in range, where C++ and HOL agree. Exhausting memory is not modelled.
\<close>

definition init :: "int \<Rightarrow> error + DLink" where
  "init n =
     (if n + 1 > 2147483647 then Inl Overflow
      else if n + 1 < 0 then Inl LengthError
      else if n + n > 2147483647 then Inl Overflow
      else Inr \<lparr>headers = map (\<lambda>i. Node i ((i + n) mod (n + 1)) ((i + 1) mod (n + 1))) [0..n],
                nodes = map (\<lambda>i. Node 0 i i) [0..n] @ [Node 0 0 0],
                nrows = 0,
                ncount = 0\<rparr>)"

text \<open>The body of the \<open>for\<close> loop of \<open>addrow\<close>, one character at a time.\<close>

fun addrow_loop :: "string \<Rightarrow> int \<Rightarrow> DLink \<Rightarrow> error + DLink" where
  "addrow_loop [] i s = Inr s"
| "addrow_loop (c # cs) i s =
     (if c = CHR ''1'' then
        (let item = i + 1 in
         if \<not> valid s item then Inl OutOfRange
         else
           let s1 = push_node s (Node item (ulink s item) item);
               index = lastindex s1 in
           if \<not> valid s1 (ulink s1 index) then Inl OutOfRange
           else
             let s2 = set_dlink s1 (ulink s1 index) index in
             if \<not> valid s2 (dlink s2 index) then Inl OutOfRange
             else
               let s3 = set_ulink s2 (dlink s2 index) index in
               addrow_loop cs (i + 1) (set_len s3 item (len s3 item + 1)))
      else addrow_loop cs (i + 1) s)"

text \<open>
  \<open>addrow\<close> reads the length of the row as \<open>(int)s.size()\<close>, in the assertion and
  in the loop bound. The conversion keeps the length of a row of at most \<open>INT_MAX\<close>
  characters; for a longer row its value is not the length (and implementation-defined before
  C++20), and the model stops.
\<close>

definition addrow :: "string \<Rightarrow> DLink \<Rightarrow> error + DLink" where
  "addrow str s =
     (if int (length str) > 2147483647 then Inl Overflow
      else if \<not> int (length str) \<le> nitems s then Inl AssertFail
      else
        let spacer = lastindex s in
        if \<not> valid s spacer then Inl OutOfRange
        else if \<not> isspacer s spacer then Inl AssertFail
        else
          let rowstart = spacer + 1 in
          case addrow_loop str 0 s of
            Inl e \<Rightarrow> Inl e
          | Inr s1 \<Rightarrow>
              let rowend = lastindex s1 in
              if \<not> rowend \<ge> rowstart then Inl AssertFail
              else
                let s2 = push_node s1 (Node (len s1 spacer - 1) rowstart 0);
                    s3 = set_dlink s2 spacer rowend
                in Inr (s3\<lparr>nrows := nrows s3 + 1\<rparr>))"

subsection \<open>Hiding and covering\<close>

partial_function (option) hide_loop :: "int \<Rightarrow> int \<Rightarrow> DLink \<Rightarrow> DLink result" where
  "hide_loop p q s =
     (if q = p then Some (Inr s)
      else if \<not> valid s q then oor
      else
        let x = top s q; u = ulink s q; d = dlink s q in
        if x \<le> 0 then hide_loop p u s
        else if \<not> valid s u \<or> \<not> valid s d \<or> \<not> valid s x then oor
        else
          let s2 = set_ulink (set_dlink s u d) d u in
          hide_loop p (q + 1) (set_len s2 x (len s2 x - 1)))"

definition hide :: "int \<Rightarrow> DLink \<Rightarrow> DLink result" where
  "hide p s = hide_loop p (p + 1) s"

partial_function (option) unhide_loop :: "int \<Rightarrow> int \<Rightarrow> DLink \<Rightarrow> DLink result" where
  "unhide_loop p q s =
     (if q = p then Some (Inr s)
      else if \<not> valid s q then oor
      else
        let x = top s q; u = ulink s q; d = dlink s q in
        if x \<le> 0 then unhide_loop p d s
        else if \<not> valid s u \<or> \<not> valid s d \<or> \<not> valid s x then oor
        else
          let s2 = set_ulink (set_dlink s u q) d q in
          unhide_loop p (q - 1) (set_len s2 x (len s2 x + 1)))"

definition unhide :: "int \<Rightarrow> DLink \<Rightarrow> DLink result" where
  "unhide p s = unhide_loop p (p - 1) s"

partial_function (option) cover_loop :: "int \<Rightarrow> int \<Rightarrow> DLink \<Rightarrow> DLink result" where
  "cover_loop i p s =
     (if p = i then Some (Inr s)
      else bindR (hide p s) (\<lambda>s1.
        if \<not> valid s1 p then oor else cover_loop i (dlink s1 p) s1))"

definition cover :: "int \<Rightarrow> DLink \<Rightarrow> DLink result" where
  "cover i s =
     (if \<not> valid s i then oor
      else bindR (cover_loop i (dlink s i) s) (\<lambda>s1.
        if \<not> hvalid s1 i then oor
        else
          let l = llink s1 i; r = rlink s1 i in
          if \<not> hvalid s1 l \<or> \<not> hvalid s1 r then oor
          else Some (Inr (set_llink (set_rlink s1 l r) r l))))"

partial_function (option) uncover_loop :: "int \<Rightarrow> int \<Rightarrow> DLink \<Rightarrow> DLink result" where
  "uncover_loop i p s =
     (if p = i then Some (Inr s)
      else bindR (unhide p s) (\<lambda>s1.
        if \<not> valid s1 p then oor else uncover_loop i (ulink s1 p) s1))"

definition uncover :: "int \<Rightarrow> DLink \<Rightarrow> DLink result" where
  "uncover i s =
     (if \<not> hvalid s i then oor
      else
        let l = llink s i; r = rlink s i in
        if \<not> hvalid s l \<or> \<not> hvalid s r then oor
        else
          let s1 = set_llink (set_rlink s l i) r i in
          if \<not> valid s1 i then oor else uncover_loop i (ulink s1 i) s1)"

subsection \<open>Choosing an item\<close>

partial_function (option) chooseitem_loop :: "DLink \<Rightarrow> int \<Rightarrow> int \<Rightarrow> int \<Rightarrow> int result" where
  "chooseitem_loop s i best bestlen =
     (if i = 0 then Some (Inr best)
      else if \<not> valid s i \<or> \<not> hvalid s i then oor
      else if len s i < bestlen then chooseitem_loop s (rlink s i) i (len s i)
      else chooseitem_loop s (rlink s i) best bestlen)"

definition chooseitem :: "DLink \<Rightarrow> int result" where
  "chooseitem s =
     (if \<not> hvalid s 0 then oor
      else
        let i = rlink s 0 in
        if \<not> valid s i then oor else chooseitem_loop s i i (len s i))"


subsection \<open>The search\<close>

text \<open>
  The two inner loops of \<open>rdance\<close>: covering the other items of the row of \<open>k\<close>,
  and uncovering them in reverse order.
\<close>

partial_function (option) cover_row :: "int \<Rightarrow> int \<Rightarrow> DLink \<Rightarrow> DLink result" where
  "cover_row k p s =
     (if p = k then Some (Inr s)
      else if \<not> valid s p then oor
      else
        let j = top s p in
        if j \<le> 0 then cover_row k (ulink s p) s
        else bindR (cover j s) (\<lambda>s1. cover_row k (p + 1) s1))"

partial_function (option) uncover_row :: "int \<Rightarrow> int \<Rightarrow> DLink \<Rightarrow> DLink result" where
  "uncover_row k p s =
     (if p = k then Some (Inr s)
      else if \<not> valid s p then oor
      else
        let j = top s p in
        if j \<le> 0 then uncover_row k (dlink s p) s
        else bindR (uncover j s) (\<lambda>s1. uncover_row k (p - 1) s1))"

text \<open>
  \<open>rdance\<close> calls itself from inside its loop over the options of the chosen item.
  The model is one recursive function with two entry points: \<open>Enter\<close> is the
  function body, \<open>Options i k\<close> is the \<open>for\<close> loop at node \<open>k\<close> of item
  \<open>i\<close>. The item selection and the visitor are parameters; the visitor reads the
  matrix and the shared choice stack and updates its own state. The stack is threaded
  through, \<open>push_back\<close> and \<open>pop_back\<close> being \<open>stack @ [k]\<close> and
  \<open>butlast\<close>.
\<close>

datatype phase = Enter | Options int int

partial_function (option) rdance_aux ::
  "(DLink \<Rightarrow> int result) \<Rightarrow> (DLink \<Rightarrow> int list \<Rightarrow> 'v \<Rightarrow> 'v result) \<Rightarrow>
     phase \<Rightarrow> DLink \<Rightarrow> int list \<Rightarrow> 'v \<Rightarrow> (DLink \<times> int list \<times> 'v) result" where
  "rdance_aux ch vis ph s stack v =
     (case ph of
        Enter \<Rightarrow>
          (let s0 = s\<lparr>ncount := ncount s + 1\<rparr> in
           if \<not> hvalid s0 0 then oor
           else if rlink s0 0 = 0 then
             bindR (vis s0 stack v) (\<lambda>v1. Some (Inr (s0, stack, v1)))
           else
             bindR (ch s0) (\<lambda>i.
             bindR (cover i s0) (\<lambda>s1.
               if \<not> valid s1 i then oor
               else
                 bindR (rdance_aux ch vis (Options i (dlink s1 i)) s1 stack v) (\<lambda>r.
                 bindR (uncover i (fst r)) (\<lambda>s3. Some (Inr (s3, snd r))))))) 
      | Options i k \<Rightarrow>
          (if k = i then Some (Inr (s, stack, v))
           else if \<not> valid s k then oor
           else if top s k \<noteq> i then Some (Inl AssertFail)
           else
             bindR (cover_row k (k + 1) s) (\<lambda>s1.
             bindR (rdance_aux ch vis Enter s1 (stack @ [k]) v) (\<lambda>r.
               if fst (snd r) = [] then oor
               else
                 bindR (uncover_row k (k - 1) (fst r)) (\<lambda>s3.
                   if \<not> valid s3 k then oor
                   else rdance_aux ch vis (Options i (dlink s3 k)) s3
                          (butlast (fst (snd r))) (snd (snd r)))))))"

definition rdance_with ::
  "(DLink \<Rightarrow> int result) \<Rightarrow> (DLink \<Rightarrow> int list \<Rightarrow> 'v \<Rightarrow> 'v result) \<Rightarrow>
     DLink \<Rightarrow> int list \<Rightarrow> 'v \<Rightarrow> (DLink \<times> int list \<times> 'v) result" where
  "rdance_with ch vis s stack v = rdance_aux ch vis Enter s stack v"

definition rdance ::
  "(DLink \<Rightarrow> int list \<Rightarrow> 'v \<Rightarrow> 'v result) \<Rightarrow>
     DLink \<Rightarrow> int list \<Rightarrow> 'v \<Rightarrow> (DLink \<times> int list \<times> 'v) result" where
  "rdance = rdance_with chooseitem"

partial_function (option) getoption :: "DLink \<Rightarrow> int \<Rightarrow> int result" where
  "getoption s p =
     (if \<not> valid s p then oor
      else if top s p \<ge> 0 then getoption s (p + 1)
      else Some (Inr (- top s p - 1)))"

subsection \<open>The visitors\<close>

text \<open>A visitor that records the choice stack of every call.\<close>

definition record_visit :: "DLink \<Rightarrow> int list \<Rightarrow> int list list \<Rightarrow> int list list result" where
  "record_visit s stack v = Some (Inr (v @ [stack]))"

text \<open>
  \<open>Counter::visit\<close>. \<open>out\<close> collects the lines written to stdout. Reading
  \<open>row[j]\<close> at \<open>j = row.size()\<close> yields the terminating zero character; beyond
  that it is out of range. The line is written by \<open>printf\<close> with \<open>%s\<close> from
  \<open>config.c_str()\<close>, which stops at the first zero character of \<open>config\<close>: the
  character that \<open>digit\<close> gives the 169th option of a solution.
\<close>

record Counter =
  counter :: int
  rows :: "string list"
  out :: "string list"

fun getoptions :: "DLink \<Rightarrow> int list \<Rightarrow> int list result" where
  "getoptions s [] = Some (Inr [])"
| "getoptions s (p # ps) =
     bindR (getoption s p) (\<lambda>opt.
     bindR (getoptions s ps) (\<lambda>opts. Some (Inr (opt # opts))))"


definition digit :: "int \<Rightarrow> char" where
  "digit k = (if k < 10 then char_of (k + 48) else char_of (k - 10 + 97))"

fun visit_cols :: "string \<Rightarrow> int \<Rightarrow> nat list \<Rightarrow> string \<Rightarrow> error + string" where
  "visit_cols row k [] config = Inr config"
| "visit_cols row k (j # js) config =
     (if j > length row then Inl OutOfRange
      else if j < length row \<and> row ! j = CHR ''1'' then
        (if \<not> j < length config then Inl OutOfRange
         else if config ! j \<noteq> CHR ''0'' then Inl AssertFail
         else visit_cols row k js (config[j := digit k]))
      else visit_cols row k js config)"

fun visit_rows :: "string list \<Rightarrow> nat \<Rightarrow> int list \<Rightarrow> int \<Rightarrow> string \<Rightarrow> error + string" where
  "visit_rows rws N [] i config = Inr config"
| "visit_rows rws N (opt # opts) i config =
     (if \<not> (0 \<le> opt \<and> opt < int (length rws)) then Inl OutOfRange
      else
        case visit_cols (rws ! nat opt) (i + 1) [0..<N] config of
          Inl e \<Rightarrow> Inl e
        | Inr config1 \<Rightarrow> visit_rows rws N opts (i + 1) config1)"

definition visit :: "DLink \<Rightarrow> int list \<Rightarrow> Counter \<Rightarrow> Counter result" where
  "visit s stack c =
     (let c1 = c\<lparr>counter := counter c + 1\<rparr> in
      bindR (getoptions s stack) (\<lambda>options.
        let N = nitems s in
        if N < 0 then Some (Inl LengthError)
        else
          case visit_rows (rows c1) (nat N) (sort options) 0 (replicate (nat N) CHR ''0'') of
            Inl e \<Rightarrow> Some (Inl e)
          | Inr config \<Rightarrow>
              Some (Inr (c1\<lparr>out := out c1 @ [takeWhile (\<lambda>c. c \<noteq> CHR 0x00) config]\<rparr>))))"

subsection \<open>The main program\<close>

text \<open>
  The loop of \<open>main\<close> over the rows, with its assertion \<open>int(row.size()) == nitems\<close>;
  the conversion is that of \<open>addrow\<close>.
\<close>

fun main_addrows :: "int \<Rightarrow> string list \<Rightarrow> DLink \<Rightarrow> error + DLink" where
  "main_addrows n [] s = Inr s"
| "main_addrows n (row # rws) s =
     (if int (length row) > 2147483647 then Inl Overflow
      else if int (length row) \<noteq> n then Inl AssertFail
      else case addrow row s of Inl e \<Rightarrow> Inl e | Inr s1 \<Rightarrow> main_addrows n rws s1)"

text \<open>The assertion of \<open>main\<close> on the item count, followed by the constructor call.\<close>

definition main_construct :: "int \<Rightarrow> error + DLink" where
  "main_construct n = (if \<not> n > 0 then Inl AssertFail else init n)"

text \<open>
  \<open>main\<close> on the lines of stdin; the result is the lines written to stdout and the
  number of solutions. The item count is the length of the first row, converted to
  \<open>int\<close>.
\<close>

definition main :: "string list \<Rightarrow> (string list \<times> int) result" where
  "main lines =
     (let rws = filter (\<lambda>row. length row > 0 \<and> row ! 0 \<noteq> CHR ''#'') lines in
      if rws = [] then oor
      else
        let n = int (length (rws ! 0)) in
          if n > 2147483647 then Some (Inl Overflow)
          else
            case main_construct n of
              Inl e \<Rightarrow> Some (Inl e)
            | Inr s0 \<Rightarrow>
                (case main_addrows n rws s0 of
                   Inl e \<Rightarrow> Some (Inl e)
                 | Inr s \<Rightarrow>
                     bindR (rdance visit s [] \<lparr>counter = 0, rows = rws, out = []\<rparr>) (\<lambda>r.
                       Some (Inr (out (snd (snd r)), counter (snd (snd r)))))))"

declare hide_loop.simps [code]
declare unhide_loop.simps [code]
declare cover_loop.simps [code]
declare uncover_loop.simps [code]
declare chooseitem_loop.simps [code]
declare cover_row.simps [code]
declare uncover_row.simps [code]
declare rdance_aux.simps [code]
declare getoption.simps [code]

section \<open>Describing the link structure\<close>

text \<open>
  \<open>dpath nx pv a xs b\<close>: following \<open>nx\<close> from \<open>a\<close> visits \<open>xs\<close> in order and
  then reaches \<open>b\<close>, and \<open>pv\<close> leads back the same way.
\<close>

fun dpath :: "(int \<Rightarrow> int) \<Rightarrow> (int \<Rightarrow> int) \<Rightarrow> int \<Rightarrow> int list \<Rightarrow> int \<Rightarrow> bool" where
  "dpath nx pv a [] b \<longleftrightarrow> nx a = b \<and> pv b = a"
| "dpath nx pv a (x # xs) b \<longleftrightarrow> nx a = x \<and> pv x = a \<and> dpath nx pv x xs b"

text \<open>
  The vertical list of item \<open>c\<close> is the circular list \<open>c, xs, c\<close> of nodes whose
  \<open>top\<close> is \<open>c\<close>, and \<open>len c\<close> counts them.
\<close>

definition vring :: "DLink \<Rightarrow> int \<Rightarrow> int list \<Rightarrow> bool" where
  "vring s c xs \<longleftrightarrow>
     dpath (dlink s) (ulink s) c xs c \<and> distinct xs \<and> len s c = int (length xs) \<and>
     (\<forall>q \<in> set xs. nitems s < q \<and> valid s q \<and> top s q = c)"

definition RINGS :: "DLink \<Rightarrow> (int \<Rightarrow> int list) \<Rightarrow> bool" where
  "RINGS s V \<longleftrightarrow>
     0 \<le> nitems s \<and> nitems s < int (length (nodes s)) \<and>
     (\<forall>c. 1 \<le> c \<and> c \<le> nitems s \<longrightarrow> vring s c (V c))"

text \<open>The horizontal list: the circular list \<open>0, H, 0\<close> of the active items.\<close>

definition hring :: "DLink \<Rightarrow> int list \<Rightarrow> bool" where
  "hring s H \<longleftrightarrow>
     0 \<le> nitems s \<and> dpath (rlink s) (llink s) 0 H 0 \<and> distinct H \<and>
     (\<forall>c \<in> set H. 1 \<le> c \<and> c \<le> nitems s)"

text \<open>
  The active items, read off the matrix as \<open>print\<close> does: follow \<open>rlink\<close> from the
  root until the root comes back (at most once around the header array).
\<close>

fun items_from :: "DLink \<Rightarrow> nat \<Rightarrow> int \<Rightarrow> int list" where
  "items_from s 0 i = []"
| "items_from s (Suc n) i =
     (if i = 0 \<or> \<not> hvalid s i then [] else i # items_from s n (rlink s i))"

definition active :: "DLink \<Rightarrow> int list" where
  "active s = (if hvalid s 0 then items_from s (length (headers s)) (rlink s 0) else [])"

text \<open>The items of an option given as a string: the 1-based positions holding \<open>1\<close>.\<close>

fun ones_from :: "int \<Rightarrow> string \<Rightarrow> int list" where
  "ones_from i [] = []"
| "ones_from i (c # cs) =
     (if c = CHR ''1'' then (i + 1) # ones_from (i + 1) cs else ones_from (i + 1) cs)"

definition ones :: "string \<Rightarrow> int list" where
  "ones str = ones_from 0 str"

text \<open>
  The part of the matrix that the search never changes. Row \<open>r\<close>, made from the string
  \<open>str\<close>, occupies the nodes \<open>a..b\<close>: their tops are the items of \<open>str\<close>, the
  spacer after it carries \<open>-(r+1)\<close> and points back to \<open>a\<close>, the spacer before it
  points forward to \<open>b\<close>.
\<close>

definition rowok :: "DLink \<Rightarrow> string \<Rightarrow> int \<Rightarrow> int \<Rightarrow> int \<Rightarrow> bool" where
  "rowok s str r a b \<longleftrightarrow>
     0 \<le> r \<and> nitems s + 1 < a \<and> a \<le> b \<and> b + 1 < int (length (nodes s)) \<and>
     int (length str) \<le> nitems s \<and> map (top s) [a..b] = ones str \<and>
     top s (b + 1) = - (r + 1) \<and> ulink s (b + 1) = a \<and>
     top s (a - 1) \<le> 0 \<and> dlink s (a - 1) = b"

definition static :: "DLink \<Rightarrow> string list \<Rightarrow> (int \<times> int) list \<Rightarrow> bool" where
  "static s strs sp \<longleftrightarrow>
     length sp = length strs \<and> 0 \<le> nitems s \<and>
     lastindex s = (if sp = [] then nitems s + 1 else snd (last sp) + 1) \<and>
     top s (lastindex s) = - int (length sp) \<and>
     (\<forall>r < length sp. rowok s (strs ! r) (int r) (fst (sp ! r)) (snd (sp ! r)))"

text \<open>
  The invariant of the search. \<open>H\<close> lists the active items, \<open>V c\<close> the nodes linked
  into the vertical list of item \<open>c\<close>. A node of an active item is linked exactly when
  every item of its row is active.
\<close>

definition rowlive :: "DLink \<Rightarrow> int list \<Rightarrow> int \<times> int \<Rightarrow> bool" where
  "rowlive s H ab \<longleftrightarrow> (\<forall>q \<in> {fst ab..snd ab}. top s q \<in> set H)"

definition INV ::
  "DLink \<Rightarrow> string list \<Rightarrow> (int \<times> int) list \<Rightarrow> int list \<Rightarrow> (int \<Rightarrow> int list) \<Rightarrow> bool" where
  "INV s strs sp H V \<longleftrightarrow>
     static s strs sp \<and> RINGS s V \<and> hring s H \<and>
     (\<forall>c. \<forall>q \<in> set (V c). \<exists>ab \<in> set sp. fst ab \<le> q \<and> q \<le> snd ab) \<and>
     (\<forall>ab \<in> set sp. \<forall>q \<in> {fst ab..snd ab}.
        top s q \<in> set H \<longrightarrow> (q \<in> set (V (top s q)) \<longleftrightarrow> rowlive s H ab))"

text \<open>The loop bodies of \<open>hide\<close> and \<open>unhide\<close>, and the relinking of \<open>cover\<close>
  and \<open>uncover\<close>, as functions of their own.\<close>

definition unl :: "int \<Rightarrow> DLink \<Rightarrow> DLink" where
  "unl q s =
     (let x = top s q; u = ulink s q; d = dlink s q;
          s2 = set_ulink (set_dlink s u d) d u
      in set_len s2 x (len s2 x - 1))"

definition rel :: "int \<Rightarrow> DLink \<Rightarrow> DLink" where
  "rel q s =
     (let x = top s q; u = ulink s q; d = dlink s q;
          s2 = set_ulink (set_dlink s u q) d q
      in set_len s2 x (len s2 x + 1))"

definition hunl :: "int \<Rightarrow> DLink \<Rightarrow> DLink" where
  "hunl i s = (let l = llink s i; r = rlink s i in set_llink (set_rlink s l r) r l)"

definition hrel :: "int \<Rightarrow> DLink \<Rightarrow> DLink" where
  "hrel i s = (let l = llink s i; r = rlink s i in set_llink (set_rlink s l i) r i)"

text \<open>The other nodes of the row \<open>a..b\<close>, in the order \<open>hide p\<close> visits them.\<close>

definition oth :: "int \<Rightarrow> int \<Rightarrow> int \<Rightarrow> int list" where
  "oth a b p = [p + 1..b] @ [a..p - 1]"

definition Vdel :: "int set \<Rightarrow> (int \<Rightarrow> int list) \<Rightarrow> int \<Rightarrow> int list" where
  "Vdel X V c = filter (\<lambda>q. q \<notin> X) (V c)"

definition okq :: "DLink \<Rightarrow> (int \<Rightarrow> int list) \<Rightarrow> int \<Rightarrow> bool" where
  "okq s V q \<longleftrightarrow>
     nitems s < q \<and> valid s q \<and> 1 \<le> top s q \<and> top s q \<le> nitems s \<and> q \<in> set (V (top s q))"

definition GOOD :: "DLink \<Rightarrow> (int \<Rightarrow> int list) \<Rightarrow> int list \<Rightarrow> bool" where
  "GOOD s V qs \<longleftrightarrow> RINGS s V \<and> distinct qs \<and> (\<forall>q \<in> set qs. okq s V q)"

text \<open>What unlinking nodes from vertical lists leaves alone.\<close>

definition frame :: "DLink \<Rightarrow> DLink \<Rightarrow> bool" where
  "frame s t \<longleftrightarrow>
     headers t = headers s \<and> length (nodes t) = length (nodes s) \<and>
     nrows t = nrows s \<and> ncount t = ncount s \<and>
     (\<forall>j. valid s j \<and> nitems s < j \<longrightarrow>
        top t j = top s j \<and> (top s j \<le> 0 \<longrightarrow> ulink t j = ulink s j \<and> dlink t j = dlink s j))"

text \<open>
  The row a node lies in, the other nodes of that row, and all the nodes that
  \<open>cover\<close> unlinks when the vertical list of the item holds the nodes \<open>ps\<close>.
\<close>

definition span_of :: "(int \<times> int) list \<Rightarrow> int \<Rightarrow> int \<times> int" where
  "span_of sp q =
     (case find (\<lambda>ab. fst ab \<le> q \<and> q \<le> snd ab) sp of Some ab \<Rightarrow> ab | None \<Rightarrow> (q, q))"

definition othp :: "(int \<times> int) list \<Rightarrow> int \<Rightarrow> int list" where
  "othp sp p = oth (fst (span_of sp p)) (snd (span_of sp p)) p"

definition hidden :: "(int \<times> int) list \<Rightarrow> int list \<Rightarrow> int list" where
  "hidden sp ps = concat (map (othp sp) ps)"

text \<open>The matrix after \<open>cover i\<close>, when the vertical list of \<open>i\<close> holds the nodes \<open>L\<close>.\<close>

definition covS :: "(int \<times> int) list \<Rightarrow> int list \<Rightarrow> int \<Rightarrow> DLink \<Rightarrow> DLink" where
  "covS sp L i s = hunl i (fold unl (hidden sp L) s)"

text \<open>
  The body of the loop of \<open>addrow\<close> at a set bit, and its effect on the vertical
  lists when the new node gets position \<open>L\<close>.
\<close>

definition app :: "int \<Rightarrow> DLink \<Rightarrow> DLink" where
  "app item s =
     (let s1 = push_node s (Node item (ulink s item) item);
          index = lastindex s1;
          s2 = set_dlink s1 (ulink s1 index) index;
          s3 = set_ulink s2 (dlink s2 index) index
      in set_len s3 item (len s3 item + 1))"

fun Vapp :: "(int \<Rightarrow> int list) \<Rightarrow> int \<Rightarrow> int list \<Rightarrow> int \<Rightarrow> int list" where
  "Vapp V L [] = V"
| "Vapp V L (x # xs) = Vapp (V(x := V x @ [L])) (L + 1) xs"

text \<open>What appending nodes leaves alone.\<close>

definition oframe :: "DLink \<Rightarrow> DLink \<Rightarrow> bool" where
  "oframe s t \<longleftrightarrow>
     headers t = headers s \<and> length (nodes s) \<le> length (nodes t) \<and>
     nrows t = nrows s \<and> ncount t = ncount s \<and>
     (\<forall>j. valid s j \<and> nitems s < j \<longrightarrow>
        top t j = top s j \<and> (top s j \<le> 0 \<longrightarrow> ulink t j = ulink s j \<and> dlink t j = dlink s j))"

text \<open>
  The invariant of construction: every item is active and every node of every row is
  linked into its vertical list.
\<close>

definition BI :: "DLink \<Rightarrow> string list \<Rightarrow> (int \<times> int) list \<Rightarrow> (int \<Rightarrow> int list) \<Rightarrow> bool" where
  "BI s strs sp V \<longleftrightarrow>
     static s strs sp \<and> RINGS s V \<and> hring s [1..nitems s] \<and>
     (\<forall>c. \<forall>q \<in> set (V c). \<exists>ab \<in> set sp. fst ab \<le> q \<and> q \<le> snd ab) \<and>
     (\<forall>ab \<in> set sp. \<forall>q \<in> {fst ab..snd ab}. q \<in> set (V (top s q)))"

text \<open>A matrix built by \<open>init\<close> followed by a sequence of \<open>addrow\<close> calls.\<close>

fun addrows :: "string list \<Rightarrow> DLink \<Rightarrow> error + DLink" where
  "addrows [] s = Inr s"
| "addrows (str # strs) s =
     (case addrow str s of Inl e \<Rightarrow> Inl e | Inr s1 \<Rightarrow> addrows strs s1)"

definition build :: "int \<Rightarrow> string list \<Rightarrow> error + DLink" where
  "build n strs = (case init n of Inl e \<Rightarrow> Inl e | Inr s \<Rightarrow> addrows strs s)"

text \<open>
  The states the search can be in between two of its steps: a built matrix, any state
  after covering an item that is active there, and any value of the call counter.
\<close>

inductive reachable :: "DLink \<Rightarrow> bool" where
  built: "0 \<le> n \<Longrightarrow> build n strs = Inr s \<Longrightarrow> reachable s"
| covered: "reachable s \<Longrightarrow> i \<in> set (active s) \<Longrightarrow> cover i s = Some (Inr s') \<Longrightarrow> reachable s'"
| counted: "reachable s \<Longrightarrow> reachable (s\<lparr>ncount := m\<rparr>)"

text \<open>
  The leftmost element of \<open>xs\<close> whose \<open>f\<close> is below that of \<open>best\<close> and of all
  elements before it, as the loop of \<open>chooseitem\<close> computes it.
\<close>

fun first_min :: "(int \<Rightarrow> int) \<Rightarrow> int \<Rightarrow> int list \<Rightarrow> int" where
  "first_min f best [] = best"
| "first_min f best (x # xs) = first_min f (if f x < f best then x else best) xs"



definition shift :: "int \<Rightarrow> (DLink \<times> int \<times> int list) list \<Rightarrow> (DLink \<times> int \<times> int list) list" where
  "shift d cs = map (\<lambda>c. (fst c, fst (snd c) + d, snd (snd c))) cs"


text \<open>
  The exact covers of the item set \<open>A\<close> by options given as strings: sets \<open>R\<close> of
  option indices whose items lie in \<open>A\<close> and such that every item of \<open>A\<close> belongs to
  exactly one option of \<open>R\<close>.
\<close>

fun rowix :: "(int \<times> int) list \<Rightarrow> int \<Rightarrow> nat" where
  "rowix [] k = 0"
| "rowix (ab # sp) k = (if fst ab \<le> k \<and> k \<le> snd ab then 0 else Suc (rowix sp k))"






definition rowsof :: "(int \<times> int) list \<Rightarrow> int list \<Rightarrow> nat set" where
  "rowsof sp ks = rowix sp ` set ks"



subsection \<open>The worked example\<close>

definition example_rows :: "string list" where
  "example_rows =
     [''1001001'', ''1001000'', ''0001101'', ''0010110'', ''0110011'', ''0100001'']"

definition example_state :: DLink where
  "example_state =
     (case build 7 example_rows of
        Inr s \<Rightarrow> s
      | Inl e \<Rightarrow> \<lparr>headers = [], nodes = [], nrows = 0, ncount = 0\<rparr>)"

text \<open>
  The search on the matrix that \<open>main\<close> builds, run with the recording visitor:
  the recorded choice stacks, and the options \<open>getoption\<close> finds for each.
\<close>

fun all_options :: "DLink \<Rightarrow> int list list \<Rightarrow> int list list result" where
  "all_options s [] = Some (Inr [])"
| "all_options s (stk # stks) =
     bindR (getoptions s stk) (\<lambda>opts.
     bindR (all_options s stks) (\<lambda>rest. Some (Inr (opts # rest))))"

definition search_rows :: "int \<Rightarrow> string list \<Rightarrow> (int list list \<times> int list list) result" where
  "search_rows n rws =
     (case init n of
        Inl e \<Rightarrow> Some (Inl e)
      | Inr s0 \<Rightarrow>
          (case main_addrows n rws s0 of
             Inl e \<Rightarrow> Some (Inl e)
           | Inr s \<Rightarrow>
               bindR (rdance record_visit s [] []) (\<lambda>r.
               bindR (all_options s (snd (snd r))) (\<lambda>opts.
                 Some (Inr (snd (snd r), opts))))))"

section \<open>Reading a field after a write\<close>

lemma valid_set [simp]:
  "valid (set_dlink s i v) j = valid s j"
  "valid (set_ulink s i v) j = valid s j"
  "valid (set_len s i v) j = valid s j"
  "valid (set_llink s i v) j = valid s j"
  "valid (set_rlink s i v) j = valid s j"
  "valid (s\<lparr>ncount := m\<rparr>) j = valid s j"
  by (simp_all add: valid_def set_dlink_def set_ulink_def set_len_def set_llink_def set_rlink_def)

lemma hvalid_set [simp]:
  "hvalid (set_dlink s i v) j = hvalid s j"
  "hvalid (set_ulink s i v) j = hvalid s j"
  "hvalid (set_len s i v) j = hvalid s j"
  "hvalid (set_llink s i v) j = hvalid s j"
  "hvalid (set_rlink s i v) j = hvalid s j"
  "hvalid (s\<lparr>ncount := m\<rparr>) j = hvalid s j"
  by (simp_all add: hvalid_def set_dlink_def set_ulink_def set_len_def set_llink_def set_rlink_def)

lemma nitems_set [simp]:
  "nitems (set_dlink s i v) = nitems s"
  "nitems (set_ulink s i v) = nitems s"
  "nitems (set_len s i v) = nitems s"
  "nitems (set_llink s i v) = nitems s"
  "nitems (set_rlink s i v) = nitems s"
  "nitems (s\<lparr>ncount := m\<rparr>) = nitems s"
  by (simp_all add: nitems_def set_dlink_def set_ulink_def set_len_def set_llink_def set_rlink_def)

lemma nodes_length_set [simp]:
  "length (nodes (set_dlink s i v)) = length (nodes s)"
  "length (nodes (set_ulink s i v)) = length (nodes s)"
  "length (nodes (set_len s i v)) = length (nodes s)"
  "nodes (set_llink s i v) = nodes s"
  "nodes (set_rlink s i v) = nodes s"
  by (simp_all add: set_dlink_def set_ulink_def set_len_def set_llink_def set_rlink_def)

lemma headers_set [simp]:
  "headers (set_dlink s i v) = headers s"
  "headers (set_ulink s i v) = headers s"
  "headers (set_len s i v) = headers s"
  "length (headers (set_llink s i v)) = length (headers s)"
  "length (headers (set_rlink s i v)) = length (headers s)"
  by (simp_all add: set_dlink_def set_ulink_def set_len_def set_llink_def set_rlink_def)

lemma counts_set [simp]:
  "nrows (set_dlink s i v) = nrows s" "ncount (set_dlink s i v) = ncount s"
  "nrows (set_ulink s i v) = nrows s" "ncount (set_ulink s i v) = ncount s"
  "nrows (set_len s i v) = nrows s" "ncount (set_len s i v) = ncount s"
  "nrows (set_llink s i v) = nrows s" "ncount (set_llink s i v) = ncount s"
  "nrows (set_rlink s i v) = nrows s" "ncount (set_rlink s i v) = ncount s"
  by (simp_all add: set_dlink_def set_ulink_def set_len_def set_llink_def set_rlink_def)

lemma node_upd_other:
  "data ((xs[i := Node (data (xs ! i)) a b]) ! j) = data (xs ! j)"
  "prev ((xs[i := Node a (prev (xs ! i)) b]) ! j) = prev (xs ! j)"
  "nxt ((xs[i := Node a b (nxt (xs ! i))]) ! j) = nxt (xs ! j)"
proof -
  show "data ((xs[i := Node (data (xs ! i)) a b]) ! j) = data (xs ! j)"
    by (cases "i < length xs") (simp_all add: nth_list_update not_less list_update_beyond)
  show "prev ((xs[i := Node a (prev (xs ! i)) b]) ! j) = prev (xs ! j)"
    by (cases "i < length xs") (simp_all add: nth_list_update not_less list_update_beyond)
  show "nxt ((xs[i := Node a b (nxt (xs ! i))]) ! j) = nxt (xs ! j)"
    by (cases "i < length xs") (simp_all add: nth_list_update not_less list_update_beyond)
qed

lemma top_set [simp]:
  "top (set_dlink s i v) j = top s j"
  "top (set_ulink s i v) j = top s j"
  "top (set_llink s i v) j = top s j"
  "top (set_rlink s i v) j = top s j"
  "top (s\<lparr>ncount := m\<rparr>) j = top s j"
  by (simp_all add: top_def set_dlink_def set_ulink_def set_llink_def set_rlink_def node_upd_other)

lemma len_set [simp]:
  "len (set_dlink s i v) j = len s j"
  "len (set_ulink s i v) j = len s j"
  "len (set_llink s i v) j = len s j"
  "len (set_rlink s i v) j = len s j"
  "len (s\<lparr>ncount := m\<rparr>) j = len s j"
  by (simp_all add: len_def set_dlink_def set_ulink_def set_llink_def set_rlink_def node_upd_other)

lemma ulink_set [simp]:
  "ulink (set_dlink s i v) j = ulink s j"
  "ulink (set_len s i v) j = ulink s j"
  "ulink (set_llink s i v) j = ulink s j"
  "ulink (set_rlink s i v) j = ulink s j"
  "ulink (s\<lparr>ncount := m\<rparr>) j = ulink s j"
  by (simp_all add: ulink_def set_dlink_def set_len_def set_llink_def set_rlink_def node_upd_other)

lemma dlink_set [simp]:
  "dlink (set_ulink s i v) j = dlink s j"
  "dlink (set_len s i v) j = dlink s j"
  "dlink (set_llink s i v) j = dlink s j"
  "dlink (set_rlink s i v) j = dlink s j"
  "dlink (s\<lparr>ncount := m\<rparr>) j = dlink s j"
  by (simp_all add: dlink_def set_ulink_def set_len_def set_llink_def set_rlink_def node_upd_other)

lemma hlink_set [simp]:
  "llink (set_rlink s i v) j = llink s j"
  "rlink (set_llink s i v) j = rlink s j"
  "llink (set_dlink s i v) j = llink s j"
  "rlink (set_dlink s i v) j = rlink s j"
  "llink (set_ulink s i v) j = llink s j"
  "rlink (set_ulink s i v) j = rlink s j"
  "llink (set_len s i v) j = llink s j"
  "rlink (set_len s i v) j = rlink s j"
  "llink (s\<lparr>ncount := m\<rparr>) j = llink s j"
  "rlink (s\<lparr>ncount := m\<rparr>) j = rlink s j"
  by (simp_all add: llink_def rlink_def set_rlink_def set_llink_def set_dlink_def set_ulink_def
      set_len_def node_upd_other)

lemma nth_upd_int:
  "0 \<le> i \<Longrightarrow> i < int (length xs) \<Longrightarrow> 0 \<le> j \<Longrightarrow>
     xs[nat i := x] ! nat j = (if j = i then x else xs ! nat j)"
proof (cases "j = i")
  case True
  assume "0 \<le> i" "i < int (length xs)"
  then show ?thesis using True by simp
next
  case False
  assume "0 \<le> i" "0 \<le> j"
  with False have "nat i \<noteq> nat j" by arith
  then show ?thesis using False by simp
qed

lemma dlink_set_dlink [simp]:
  "valid s i \<Longrightarrow> valid s j \<Longrightarrow> dlink (set_dlink s i v) j = (if j = i then v else dlink s j)"
  by (simp add: dlink_def set_dlink_def valid_def nth_upd_int)

lemma ulink_set_ulink [simp]:
  "valid s i \<Longrightarrow> valid s j \<Longrightarrow> ulink (set_ulink s i v) j = (if j = i then v else ulink s j)"
  by (simp add: ulink_def set_ulink_def valid_def nth_upd_int)

lemma len_set_len [simp]:
  "valid s i \<Longrightarrow> valid s j \<Longrightarrow> len (set_len s i v) j = (if j = i then v else len s j)"
  by (simp add: len_def set_len_def valid_def nth_upd_int)

lemma top_set_len [simp]:
  "valid s i \<Longrightarrow> valid s j \<Longrightarrow> top (set_len s i v) j = (if j = i then v else top s j)"
  by (simp add: top_def set_len_def valid_def nth_upd_int)

lemma rlink_set_rlink [simp]:
  "hvalid s i \<Longrightarrow> hvalid s j \<Longrightarrow> rlink (set_rlink s i v) j = (if j = i then v else rlink s j)"
  by (simp add: rlink_def set_rlink_def hvalid_def nth_upd_int)

lemma llink_set_llink [simp]:
  "hvalid s i \<Longrightarrow> hvalid s j \<Longrightarrow> llink (set_llink s i v) j = (if j = i then v else llink s j)"
  by (simp add: llink_def set_llink_def hvalid_def nth_upd_int)

lemma top_len: "top s i = len s i"
  by (simp add: top_def len_def)

text \<open>Two matrices with the same fields are the same matrix.\<close>

lemma Node_eqI: "data a = data b \<Longrightarrow> prev a = prev b \<Longrightarrow> nxt a = nxt b \<Longrightarrow> a = b"
  by (cases a; cases b) simp

lemma DLink_eqI:
  assumes "length (nodes s) = length (nodes t)" "length (headers s) = length (headers t)"
    and "\<And>j. valid s j \<Longrightarrow> top s j = top t j \<and> ulink s j = ulink t j \<and> dlink s j = dlink t j"
    and "\<And>j. hvalid s j \<Longrightarrow> name s j = name t j \<and> llink s j = llink t j \<and> rlink s j = rlink t j"
    and "nrows s = nrows t" "ncount s = ncount t"
  shows "s = (t::DLink)"
proof -
  have "nodes s = nodes t"
  proof (rule nth_equalityI)
    fix k assume "k < length (nodes s)"
    then have "valid s (int k)" by (simp add: valid_def)
    from assms(3)[OF this] show "nodes s ! k = nodes t ! k"
      by (intro Node_eqI) (simp_all add: top_def ulink_def dlink_def)
  qed (rule assms(1))
  moreover have "headers s = headers t"
  proof (rule nth_equalityI)
    fix k assume "k < length (headers s)"
    then have "hvalid s (int k)" by (simp add: hvalid_def)
    from assms(4)[OF this] show "headers s ! k = headers t ! k"
      by (intro Node_eqI) (simp_all add: name_def llink_def rlink_def)
  qed (rule assms(2))
  ultimately show ?thesis using assms(5,6) by simp
qed

section \<open>Doubly linked paths\<close>

lemma dpath_append:
  "dpath nx pv a (xs @ y # ys) b \<longleftrightarrow> dpath nx pv a xs y \<and> dpath nx pv y ys b"
  by (induction xs arbitrary: a) auto

lemma dpath_cong:
  "(\<forall>x \<in> set (a # xs). nx' x = nx x) \<Longrightarrow> (\<forall>x \<in> set (xs @ [b]). pv' x = pv x) \<Longrightarrow>
     dpath nx' pv' a xs b = dpath nx pv a xs b"
  by (induction xs arbitrary: a) auto

lemma dpath_last:
  "dpath nx pv a xs b \<Longrightarrow> nx (last (a # xs)) = b \<and> pv b = last (a # xs)"
  by (induction xs arbitrary: a) auto

lemma dpath_hd:
  "dpath nx pv a xs b \<Longrightarrow> nx a = hd (xs @ [b]) \<and> pv (hd (xs @ [b])) = a"
  by (cases xs) auto

lemma dpath_retarget:
  assumes "dpath nx pv a xs b" "distinct (a # xs)"
    and "nx' (last (a # xs)) = q" "pv' q = last (a # xs)"
    and "\<forall>x \<in> set (a # xs). x \<noteq> last (a # xs) \<longrightarrow> nx' x = nx x"
    and "\<forall>x \<in> set xs. pv' x = pv x"
  shows "dpath nx' pv' a xs q"
  using assms
proof (induction xs arbitrary: a)
  case Nil
  then show ?case by simp
next
  case (Cons x xs)
  have "last (x # xs) \<in> set (x # xs)" by (rule last_in_set) simp
  then have "a \<noteq> last (x # xs)" using Cons.prems(2) by auto
  with Cons.prems have "nx' a = x" "pv' x = a" by auto
  moreover have "dpath nx' pv' x xs q"
    using Cons.prems by (intro Cons.IH) auto
  ultimately show ?case by simp
qed

lemma dpath_remove:
  assumes "dpath nx pv a (xs @ q # ys) b" "distinct (xs @ q # ys)"
    and "a \<notin> set (xs @ q # ys)" "b \<notin> set (xs @ q # ys)"
    and "nx' (last (a # xs)) = hd (ys @ [b])" "pv' (hd (ys @ [b])) = last (a # xs)"
    and "\<forall>x \<in> set (a # xs @ ys). x \<noteq> last (a # xs) \<longrightarrow> nx' x = nx x"
    and "\<forall>x \<in> set (xs @ ys @ [b]). x \<noteq> hd (ys @ [b]) \<longrightarrow> pv' x = pv x"
  shows "dpath nx' pv' a (xs @ ys) b"
  using assms
proof (induction xs arbitrary: a)
  case Nil
  show ?case
  proof (cases ys)
    case Nil
    with Nil.prems show ?thesis by simp
  next
    case (Cons y ys')
    have p: "dpath nx pv y ys' b" using Nil.prems(1) Cons by simp
    have n1: "\<forall>x \<in> set (y # ys'). nx' x = nx x" using Nil.prems Cons by auto
    have n2: "\<forall>x \<in> set (ys' @ [b]). pv' x = pv x" using Nil.prems Cons by auto
    have "dpath nx' pv' y ys' b" using p dpath_cong [OF n1 n2] by simp
    then show ?thesis using Nil.prems Cons by simp
  qed
next
  case (Cons x xs)
  have hd_in: "hd (ys @ [b]) \<in> set ys \<union> {b}" by (cases ys) auto
  have "last (x # xs) \<in> set (x # xs)" by (rule last_in_set) simp
  then have "a \<noteq> last (x # xs)" using Cons.prems(3) by auto
  then have 1: "nx' a = x" using Cons.prems by auto
  have "x \<noteq> hd (ys @ [b])" using hd_in Cons.prems(2,4) by auto
  then have 2: "pv' x = a" using Cons.prems by auto
  have "dpath nx' pv' x (xs @ ys) b"
    using Cons.prems by (intro Cons.IH) auto
  with 1 2 show ?case by simp
qed

lemma filter_remove_mid:
  "distinct (xs @ q # ys) \<Longrightarrow> filter (\<lambda>x. x \<notin> {q}) (xs @ q # ys) = xs @ ys"
  by (induction xs) (auto simp: filter_id_conv)

section \<open>Unlinking one node\<close>

lemma unl_simps [simp]:
  "headers (unl q s) = headers s" "length (nodes (unl q s)) = length (nodes s)"
  "nrows (unl q s) = nrows s" "ncount (unl q s) = ncount s"
  "valid (unl q s) j = valid s j" "hvalid (unl q s) j = hvalid s j"
  "nitems (unl q s) = nitems s"
  by (simp_all add: unl_def Let_def)

lemma rel_simps [simp]:
  "headers (rel q s) = headers s" "length (nodes (rel q s)) = length (nodes s)"
  "nrows (rel q s) = nrows s" "ncount (rel q s) = ncount s"
  "valid (rel q s) j = valid s j" "hvalid (rel q s) j = hvalid s j"
  "nitems (rel q s) = nitems s"
  by (simp_all add: rel_def Let_def)

lemma hlink_eq: "headers t = headers s \<Longrightarrow> rlink t = rlink s \<and> llink t = llink s \<and> name t = name s"
  by (auto simp: rlink_def llink_def name_def fun_eq_iff)

lemma unl_fields:
  assumes "valid s (ulink s q)" "valid s (dlink s q)" "valid s (top s q)" "valid s j"
  shows "dlink (unl q s) j = (if j = ulink s q then dlink s q else dlink s j)"
    and "ulink (unl q s) j = (if j = dlink s q then ulink s q else ulink s j)"
    and "top (unl q s) j = (if j = top s q then top s j - 1 else top s j)"
  using assms by (simp_all add: unl_def Let_def top_len)

lemma rel_fields:
  assumes "valid s (ulink s q)" "valid s (dlink s q)" "valid s (top s q)" "valid s j"
  shows "dlink (rel q s) j = (if j = ulink s q then q else dlink s j)"
    and "ulink (rel q s) j = (if j = dlink s q then q else ulink s j)"
    and "top (rel q s) j = (if j = top s q then top s j + 1 else top s j)"
  using assms by (simp_all add: rel_def Let_def top_len)

lemma rel_unl:
  assumes v: "valid s q" "valid s (ulink s q)" "valid s (dlink s q)" "valid s (top s q)"
    and x: "top s q \<noteq> q"
    and l: "dlink s (ulink s q) = q" "ulink s (dlink s q) = q"
  shows "rel q (unl q s) = s"
proof -
  let ?t = "unl q s"
  have tq: "top ?t q = top s q" "ulink ?t q = ulink s q" "dlink ?t q = dlink s q"
    using v x by (simp_all add: unl_fields)
  have vt: "valid ?t (ulink ?t q)" "valid ?t (dlink ?t q)" "valid ?t (top ?t q)"
    using v by (simp_all add: tq)
  show ?thesis
  proof (rule DLink_eqI)
    fix j assume "valid (rel q ?t) j"
    then have j: "valid s j" "valid ?t j" by simp_all
    have "dlink (rel q ?t) j = (if j = ulink s q then q else dlink ?t j)"
      using rel_fields(1) [OF vt j(2)] tq by simp
    moreover have "dlink ?t j = (if j = ulink s q then dlink s q else dlink s j)"
      by (rule unl_fields(1) [OF v(2,3,4) j(1)])
    ultimately have 1: "dlink (rel q ?t) j = dlink s j" using l by auto
    have "ulink (rel q ?t) j = (if j = dlink s q then q else ulink ?t j)"
      using rel_fields(2) [OF vt j(2)] tq by simp
    moreover have "ulink ?t j = (if j = dlink s q then ulink s q else ulink s j)"
      by (rule unl_fields(2) [OF v(2,3,4) j(1)])
    ultimately have 2: "ulink (rel q ?t) j = ulink s j" using l by auto
    have "top (rel q ?t) j = (if j = top s q then top ?t j + 1 else top ?t j)"
      using rel_fields(3) [OF vt j(2)] tq by simp
    moreover have "top ?t j = (if j = top s q then top s j - 1 else top s j)"
      by (rule unl_fields(3) [OF v(2,3,4) j(1)])
    ultimately have 3: "top (rel q ?t) j = top s j" by auto
    from 1 2 3 show "top (rel q ?t) j = top s j \<and> ulink (rel q ?t) j = ulink s j \<and>
          dlink (rel q ?t) j = dlink s j" by simp
  next
    fix j assume "hvalid (rel q ?t) j"
    show "name (rel q ?t) j = name s j \<and> llink (rel q ?t) j = llink s j \<and>
          rlink (rel q ?t) j = rlink s j"
      by (simp add: hlink_eq [of "rel q ?t" s])
  qed simp_all
qed

lemma unl_step:
  assumes R: "RINGS s V" and q: "okq s V q"
  shows "RINGS (unl q s) (Vdel {q} V)"
    and "rel q (unl q s) = s"
    and "frame s (unl q s)"
    and "valid s (ulink s q) \<and> valid s (dlink s q) \<and> valid s (top s q)"
    and "ulink (unl q s) q = ulink s q \<and> dlink (unl q s) q = dlink s q"
    and "\<forall>q'. q' \<noteq> q \<longrightarrow> okq s V q' \<longrightarrow> okq (unl q s) (Vdel {q} V) q'"
proof -
  define c where "c = top s q"
  define t where "t = unl q s"
  define u where "u = ulink s q"
  define d where "d = dlink s q"
  from q have qN: "nitems s < q" and qv: "valid s q" and c1: "1 \<le> c" and cN: "c \<le> nitems s"
    and qin: "q \<in> set (V c)" by (simp_all add: okq_def c_def)
  from R have N0: "0 \<le> nitems s" and Nn: "nitems s < int (length (nodes s))"
    and vr: "\<And>c. 1 \<le> c \<Longrightarrow> c \<le> nitems s \<Longrightarrow> vring s c (V c)"
    by (simp_all add: RINGS_def)
  have cv: "valid s c" using c1 cN Nn by (simp add: valid_def)
  from qin obtain xs ys where V: "V c = xs @ q # ys" by (auto dest: split_list)
  from vr [OF c1 cN] have dp: "dpath (dlink s) (ulink s) c (xs @ q # ys) c"
    and dist: "distinct (xs @ q # ys)" and lc: "len s c = int (length (xs @ q # ys))"
    and el0: "\<forall>x \<in> set (xs @ q # ys). nitems s < x \<and> valid s x \<and> top s x = c"
    unfolding vring_def V by blast+
  have el: "\<And>x. x \<in> set (xs @ q # ys) \<Longrightarrow> nitems s < x \<and> valid s x \<and> top s x = c"
    using el0 by blast
  from dp have dp1: "dpath (dlink s) (ulink s) c xs q" and dp2: "dpath (dlink s) (ulink s) q ys c"
    by (simp_all add: dpath_append)
  have ul: "u = last (c # xs)" and du: "dlink s u = q"
    using dpath_last [OF dp1] by (simp_all add: u_def)
  have dh: "d = hd (ys @ [c])" and ud: "ulink s d = q"
    using dpath_hd [OF dp2] by (simp_all add: d_def)
  have "last (c # xs) \<in> set (c # xs)" by (rule last_in_set) simp
  then have uin: "u = c \<or> u \<in> set xs" by (simp add: ul)
  have "hd (ys @ [c]) \<in> set (ys @ [c])" by (rule hd_in_set) simp
  then have din: "d = c \<or> d \<in> set ys" by (auto simp: dh)
  have uv: "valid s u" using uin cv el by auto
  have dv: "valid s d" using din cv el by auto
  have ucol: "u \<le> nitems s \<and> u = c \<or> nitems s < u \<and> top s u = c" using uin cN el by auto
  have dcol: "d \<le> nitems s \<and> d = c \<or> nitems s < d \<and> top s d = c" using din cN el by auto
  note F = unl_fields [of s q, folded u_def d_def c_def t_def, OF uv dv cv]
  show 4: "valid s (ulink s q) \<and> valid s (dlink s q) \<and> valid s (top s q)"
    using uv dv cv by (simp add: u_def d_def c_def)
  have tq: "ulink t q = u" "dlink t q = d" "top t q = c"
    using F [OF qv] qN cN by (auto simp: u_def d_def c_def)
  show "ulink (unl q s) q = ulink s q \<and> dlink (unl q s) q = dlink s q"
    using tq by (simp add: t_def u_def d_def)
  show "rel q (unl q s) = s"
    using qv 4 qN cN du ud by (intro rel_unl) (auto simp: u_def d_def c_def)
  have topN: "\<And>j. valid s j \<Longrightarrow> nitems s < j \<Longrightarrow> top t j = top s j"
    using F(3) cN by auto
  show "frame s (unl q s)"
    unfolding frame_def t_def [symmetric]
  proof (intro conjI allI impI)
    fix j assume j: "valid s j \<and> nitems s < j"
    then show "top t j = top s j" using topN by simp
    assume "top s j \<le> 0"
    with j c1 ucol dcol have "j \<noteq> u" "j \<noteq> d" by auto
    with j F show "ulink t j = ulink s j" "dlink t j = dlink s j" by auto
  qed (simp_all add: t_def)
  show "\<forall>q'. q' \<noteq> q \<longrightarrow> okq s V q' \<longrightarrow> okq (unl q s) (Vdel {q} V) q'"
    using topN by (auto simp: okq_def Vdel_def t_def)
  show "RINGS (unl q s) (Vdel {q} V)"
    unfolding RINGS_def t_def [symmetric]
  proof (intro conjI allI impI)
    fix c' assume c': "1 \<le> c' \<and> c' \<le> nitems t"
    then have c'1: "1 \<le> c'" and c'N: "c' \<le> nitems s" by (simp_all add: t_def)
    have c'v: "valid s c'" using c'1 c'N Nn by (simp add: valid_def)
    show "vring t c' (Vdel {q} V c')"
    proof (cases "c' = c")
      case True
      have W: "Vdel {q} V c = xs @ ys"
        unfolding Vdel_def V by (rule filter_remove_mid [OF dist])
      have cnot: "c \<notin> set (xs @ q # ys)" using el cN by force
      have "dpath (dlink t) (ulink t) c (xs @ ys) c"
      proof (rule dpath_remove [OF dp dist cnot cnot])
        show "dlink t (last (c # xs)) = hd (ys @ [c])"
          unfolding ul [symmetric] dh [symmetric] using F(1) [OF uv] by simp
        show "ulink t (hd (ys @ [c])) = last (c # xs)"
          unfolding ul [symmetric] dh [symmetric] using F(2) [OF dv] by simp
        show "\<forall>x \<in> set (c # xs @ ys). x \<noteq> last (c # xs) \<longrightarrow> dlink t x = dlink s x"
          unfolding ul [symmetric] using F(1) cv el by auto
        show "\<forall>x \<in> set (xs @ ys @ [c]). x \<noteq> hd (ys @ [c]) \<longrightarrow> ulink t x = ulink s x"
          unfolding dh [symmetric] using F(2) cv el by auto
      qed
      moreover have "distinct (xs @ ys)" using dist by simp
      moreover have "len t c = int (length (xs @ ys))"
        using F(3) [OF cv] lc by (simp add: top_len)
      moreover have "\<forall>x \<in> set (xs @ ys). nitems t < x \<and> valid t x \<and> top t x = c"
        using el topN by (auto simp: t_def)
      ultimately show ?thesis by (simp add: vring_def True W)
    next
      case False
      from vr [OF c'1 c'N] have dp': "dpath (dlink s) (ulink s) c' (V c') c'"
        and dist': "distinct (V c')" and lc': "len s c' = int (length (V c'))"
        and el0': "\<forall>x \<in> set (V c'). nitems s < x \<and> valid s x \<and> top s x = c'"
        unfolding vring_def by blast+
      have el': "\<And>x. x \<in> set (V c') \<Longrightarrow> nitems s < x \<and> valid s x \<and> top s x = c'"
        using el0' by blast
      have "q \<notin> set (V c')" using el' False by (auto simp: c_def)
      then have W: "Vdel {q} V c' = V c'" by (auto simp: Vdel_def filter_id_conv)
      have n1: "\<forall>x \<in> set (c' # V c'). dlink t x = dlink s x"
      proof
        fix x assume x: "x \<in> set (c' # V c')"
        then have "valid s x" using c'v el' by auto
        moreover have "x \<noteq> u" using x ucol el' [of x] False c'N by auto
        ultimately show "dlink t x = dlink s x" using F(1) by simp
      qed
      have n2: "\<forall>x \<in> set (V c' @ [c']). ulink t x = ulink s x"
      proof
        fix x assume x: "x \<in> set (V c' @ [c'])"
        then have "valid s x" using c'v el' by auto
        moreover have "x \<noteq> d" using x dcol el' [of x] False c'N by auto
        ultimately show "ulink t x = ulink s x" using F(2) by simp
      qed
      have "dpath (dlink t) (ulink t) c' (V c') c'"
        using dp' dpath_cong [OF n1 n2] by simp
      moreover have "len t c' = int (length (V c'))"
        using F(3) [OF c'v] lc' False by (simp add: top_len)
      moreover have "\<forall>x \<in> set (V c'). nitems t < x \<and> valid t x \<and> top t x = c'"
        using el' topN by (auto simp: t_def)
      ultimately show ?thesis using dist' by (simp add: vring_def W)
    qed
  qed (use N0 Nn in \<open>simp_all add: t_def\<close>)
qed

section \<open>Unlinking a list of nodes\<close>

lemma frame_refl: "frame s s"
  by (simp add: frame_def)

lemma frame_same:
  assumes "frame s t"
  shows "nitems t = nitems s" "valid t j = valid s j" "hvalid t j = hvalid s j"
    "rlink t = rlink s" "llink t = llink s" "lastindex t = lastindex s"
  using assms hlink_eq [of t s]
  by (simp_all add: frame_def nitems_def valid_def hvalid_def lastindex_def)

lemma frame_trans:
  assumes st: "frame s t" and tu: "frame t u"
  shows "frame s u"
  unfolding frame_def
proof (intro conjI allI impI)
  fix j assume j: "valid s j \<and> nitems s < j"
  then have jt: "valid t j \<and> nitems t < j" using frame_same [OF st] by simp
  from st j have a: "top t j = top s j" by (simp add: frame_def)
  from tu jt have b: "top u j = top t j" by (simp add: frame_def)
  show "top u j = top s j" using a b by simp
  assume sp: "top s j \<le> 0"
  from st j sp have c: "ulink t j = ulink s j \<and> dlink t j = dlink s j" by (simp add: frame_def)
  from tu jt sp a have d: "ulink u j = ulink t j \<and> dlink u j = dlink t j" by (simp add: frame_def)
  show "ulink u j = ulink s j" "dlink u j = dlink s j" using c d by simp_all
qed (use st tu in \<open>simp_all add: frame_def\<close>)

lemma frame_top: "frame s t \<Longrightarrow> valid s j \<Longrightarrow> nitems s < j \<Longrightarrow> top t j = top s j"
  unfolding frame_def by blast

lemma frame_spacer:
  "frame s t \<Longrightarrow> valid s j \<Longrightarrow> nitems s < j \<Longrightarrow> top s j \<le> 0 \<Longrightarrow>
     ulink t j = ulink s j \<and> dlink t j = dlink s j"
  unfolding frame_def by blast

lemma static_row:
  "static s strs sp \<Longrightarrow> r < length sp \<Longrightarrow>
     rowok s (strs ! r) (int r) (fst (sp ! r)) (snd (sp ! r))"
  unfolding static_def by blast

lemma frame_ncount: "frame s t \<Longrightarrow> frame (s\<lparr>ncount := m\<rparr>) (t\<lparr>ncount := m\<rparr>)"
  by (simp add: frame_def valid_def nitems_def top_def ulink_def dlink_def)

lemma in_upto_nth:
  "q \<in> set [a..b] \<Longrightarrow> map f [a..b] ! nat (q - a) = f q"
  by (simp add: nth_map)

lemma rowok_top:
  assumes "rowok s str r a b" "a \<le> q" "q \<le> b"
  shows "top s q = ones str ! nat (q - a)" "nat (q - a) < length (ones str)"
proof -
  from assms(1) have m: "map (top s) [a..b] = ones str" by (simp add: rowok_def)
  have "q \<in> set [a..b]" using assms by simp
  from in_upto_nth [OF this, of "top s"] show "top s q = ones str ! nat (q - a)" by (simp add: m)
  have "length (ones str) = length [a..b]" using m [symmetric] by simp
  then show "nat (q - a) < length (ones str)" using assms by simp
qed

lemma rowok_frame:
  assumes r: "rowok s str r a b" and f: "frame s t"
  shows "rowok t str r a b"
proof -
  from r have b: "nitems s + 1 < a" "a \<le> b" "b + 1 < int (length (nodes s))"
    by (simp_all add: rowok_def)
  have "- 1 \<le> nitems s" by (simp add: nitems_def)
  then have T: "\<And>j. a - 1 \<le> j \<Longrightarrow> j \<le> b + 1 \<Longrightarrow> top t j = top s j"
    using b by (intro frame_top [OF f]) (simp_all add: valid_def)
  have "map (top t) [a..b] = map (top s) [a..b]" using T by simp
  also have "\<dots> = ones str" using r unfolding rowok_def by blast
  finally have m: "map (top t) [a..b] = ones str" .
  have u: "ulink t (b + 1) = a"
    using frame_spacer [OF f, of "b + 1"] b r by (simp add: valid_def rowok_def)
  have d: "dlink t (a - 1) = b"
    using frame_spacer [OF f, of "a - 1"] b r by (simp add: valid_def rowok_def)
  have t1: "top t (b + 1) = - (r + 1)" using T [of "b + 1"] b r by (simp add: rowok_def)
  have t2: "top t (a - 1) \<le> 0" using T [of "a - 1"] b r by (simp add: rowok_def)
  have l: "length (nodes t) = length (nodes s)" using f by (simp add: frame_def)
  have r0: "0 \<le> r" "int (length str) \<le> nitems s" using r by (simp_all add: rowok_def)
  show ?thesis
    unfolding rowok_def frame_same [OF f] l
    using m u d t1 t2 b r0 by blast
qed

lemma static_frame:
  assumes s: "static s strs sp" and f: "frame s t"
  shows "static t strs sp"
proof -
  have li: "lastindex s = (if sp = [] then nitems s + 1 else snd (last sp) + 1)"
    using s by (simp add: static_def)
  have "valid s (lastindex s) \<and> nitems s < lastindex s"
  proof (cases "sp = []")
    case True
    then show ?thesis using s li by (simp add: static_def valid_def lastindex_def)
  next
    case False
    then have "length sp - 1 < length sp" by simp
    from static_row [OF s this] False
    have "rowok s (strs ! (length sp - 1)) (int (length sp - 1)) (fst (last sp)) (snd (last sp))"
      by (simp add: last_conv_nth)
    then show ?thesis using li False by (simp add: rowok_def valid_def lastindex_def)
  qed
  then have tl: "top t (lastindex s) = top s (lastindex s)" using f by (simp add: frame_def)
  show ?thesis
    unfolding static_def frame_same [OF f]
  proof (intro conjI allI impI)
    from s have "top s (lastindex s) = - int (length sp)" unfolding static_def by blast
    then show "top t (lastindex s) = - int (length sp)" using tl by simp
    fix r assume "r < length sp"
    from rowok_frame [OF static_row [OF s this] f]
    show "rowok t (strs ! r) (int r) (fst (sp ! r)) (snd (sp ! r))" .
  qed (use s in \<open>unfold static_def, blast+\<close>)
qed

lemma hring_frame: "hring s H \<Longrightarrow> frame s t \<Longrightarrow> hring t H"
  using frame_same [of s t] by (simp add: hring_def)

lemma Vdel_Vdel: "Vdel X (Vdel Y V) = Vdel (X \<union> Y) V"
  by (auto simp: Vdel_def fun_eq_iff intro: filter_cong)

lemma Vdel_empty: "Vdel {} V = V"
  by (simp add: Vdel_def fun_eq_iff)

lemma Vdel_id: "X \<inter> set (V c) = {} \<Longrightarrow> Vdel X V c = V c"
  by (auto simp: Vdel_def filter_id_conv)

lemma GOOD_fold:
  "GOOD s V (qs @ rs) \<Longrightarrow>
     GOOD (fold unl qs s) (Vdel (set qs) V) rs \<and> frame s (fold unl qs s) \<and>
     fold rel (rev qs) (fold unl qs s) = s"
proof (induction qs arbitrary: s V)
  case Nil
  then show ?case by (simp add: Vdel_empty frame_refl)
next
  case (Cons q qs)
  from Cons.prems have R: "RINGS s V" and q: "okq s V q" and d: "distinct (q # qs @ rs)"
    and ok: "\<forall>x \<in> set (qs @ rs). okq s V x"
    by (simp_all add: GOOD_def)
  note S = unl_step [OF R q]
  have "GOOD (unl q s) (Vdel {q} V) (qs @ rs)"
    unfolding GOOD_def using S(1) S(6) d ok by auto
  from Cons.IH [OF this]
  have 1: "GOOD (fold unl qs (unl q s)) (Vdel (set qs) (Vdel {q} V)) rs"
    and 2: "frame (unl q s) (fold unl qs (unl q s))"
    and 3: "fold rel (rev qs) (fold unl qs (unl q s)) = unl q s" by simp_all
  have "Vdel (set qs) (Vdel {q} V) = Vdel (set (q # qs)) V"
    by (simp add: Vdel_Vdel Un_commute)
  with 1 have "GOOD (fold unl (q # qs) s) (Vdel (set (q # qs)) V) rs" by simp
  moreover have "frame s (fold unl (q # qs) s)"
    using frame_trans [OF S(3) 2] by simp
  moreover have "fold rel (rev (q # qs)) (fold unl (q # qs) s) = s"
    using 3 S(2) by simp
  ultimately show ?case by blast
qed

section \<open>The items of a row\<close>

lemma ones_from_bounds: "x \<in> set (ones_from i cs) \<Longrightarrow> i < x \<and> x \<le> i + int (length cs)"
  by (induction cs arbitrary: i) (force split: if_splits)+

lemma ones_from_sorted: "sorted_wrt (<) (ones_from i cs)"
  by (induction cs arbitrary: i) (auto dest: ones_from_bounds)

lemma ones_bounds: "x \<in> set (ones str) \<Longrightarrow> 1 \<le> x \<and> x \<le> int (length str)"
  using ones_from_bounds [of x 0 str] by (simp add: ones_def)

lemma ones_distinct: "distinct (ones str)"
  using ones_from_sorted [of 0 str] by (simp add: ones_def strict_sorted_iff)

lemma rowok_top_bounds:
  assumes "rowok s str r a b" "a \<le> q" "q \<le> b"
  shows "1 \<le> top s q \<and> top s q \<le> nitems s"
proof -
  have "top s q \<in> set (ones str)" using rowok_top [OF assms] by simp
  from ones_bounds [OF this] assms(1) show ?thesis by (simp add: rowok_def)
qed

lemma rowok_valid:
  assumes "rowok s str r a b" "a - 1 \<le> q" "q \<le> b + 1"
  shows "valid s q \<and> nitems s < q"
proof -
  have "- 1 \<le> nitems s" by (simp add: nitems_def)
  then show ?thesis using assms by (simp add: rowok_def valid_def)
qed

section \<open>The loops of hide and unhide\<close>

lemma hide_loop_done: "hide_loop p p s = Some (Inr s)"
  by (subst hide_loop.simps) simp

lemma hide_loop_spacer:
  "q \<noteq> p \<Longrightarrow> valid s q \<Longrightarrow> top s q \<le> 0 \<Longrightarrow> hide_loop p q s = hide_loop p (ulink s q) s"
  by (subst hide_loop.simps) simp

lemma hide_loop_step:
  assumes "q \<noteq> p" "RINGS s V" "okq s V q"
  shows "hide_loop p q s = hide_loop p (q + 1) (unl q s)"
proof -
  from assms(3) have "valid s q" "0 < top s q" by (simp_all add: okq_def)
  then show ?thesis
    using assms(1) unl_step(4) [OF assms(2,3)]
    by (subst hide_loop.simps) (simp add: unl_def Let_def)
qed

lemma unhide_loop_done: "unhide_loop p p s = Some (Inr s)"
  by (subst unhide_loop.simps) simp

lemma unhide_loop_spacer:
  "q \<noteq> p \<Longrightarrow> valid s q \<Longrightarrow> top s q \<le> 0 \<Longrightarrow> unhide_loop p q s = unhide_loop p (dlink s q) s"
  by (subst unhide_loop.simps) simp

lemma unhide_loop_step:
  assumes "q \<noteq> p" "RINGS s V" "okq s V q"
  shows "unhide_loop p q (unl q s) = unhide_loop p (q - 1) s"
proof -
  let ?t = "unl q s"
  note S = unl_step [OF assms(2,3)]
  from assms(3) have q: "valid s q" "0 < top s q" "nitems s < q" by (simp_all add: okq_def)
  have tq: "top ?t q = top s q" using frame_top [OF S(3)] q by simp
  have "rel q ?t = s" by (rule S(2))
  then have "(let x = top ?t q; u = ulink ?t q; d = dlink ?t q;
                  s2 = set_ulink (set_dlink ?t u q) d q
              in set_len s2 x (len s2 x + 1)) = s" by (simp add: rel_def)
  then show ?thesis
    using assms(1) q S(4) S(5) tq
    by (subst unhide_loop.simps) (simp add: Let_def)
qed

lemma hide_loop_tail:
  assumes "a \<le> q" "q \<le> p" "GOOD s V [q..p - 1]"
  shows "hide_loop p q s = Some (Inr (fold unl [q..p - 1] s))"
  using assms
proof (induction "nat (p - q)" arbitrary: q s V)
  case 0
  then have "q = p" by simp
  then show ?case by (simp add: hide_loop_done)
next
  case (Suc n)
  then have qp: "q < p" by simp
  then have u: "[q..p - 1] = q # [q + 1..p - 1]" by (simp add: upto_rec1)
  from Suc.prems(3) have R: "RINGS s V" and ok: "okq s V q" by (simp_all add: GOOD_def u)
  from Suc.prems(3) have "GOOD s V ([q] @ [q + 1..p - 1])" by (simp add: u)
  from GOOD_fold [OF this] have G: "GOOD (unl q s) (Vdel {q} V) [q + 1..p - 1]" by simp
  have "hide_loop p q s = hide_loop p (q + 1) (unl q s)"
    using qp by (intro hide_loop_step [OF _ R ok]) simp
  also have "\<dots> = Some (Inr (fold unl [q + 1..p - 1] (unl q s)))"
    using Suc.hyps(2) Suc.prems(1) qp by (intro Suc.hyps(1) [OF _ _ _ G]) simp_all
  finally show ?case by (simp add: u)
qed

lemma hide_loop_head:
  assumes row: "rowok s str r a b" and p: "a \<le> p" "p \<le> b" and q: "p < q" "q \<le> b + 1"
    and G: "GOOD s V ([q..b] @ [a..p - 1])"
  shows "hide_loop p q s = Some (Inr (fold unl ([q..b] @ [a..p - 1]) s))"
  using row q G
proof (induction "nat (b + 1 - q)" arbitrary: q s V)
  case 0
  then have qb: "q = b + 1" by simp
  then have e: "[q..b] = []" by simp
  have sp: "valid s q" "top s q \<le> 0" "ulink s q = a"
    using rowok_valid [OF "0.prems"(1), of q] "0.prems"(1) qb by (simp_all add: rowok_def)
  have "q \<noteq> p" using "0.prems" by simp
  then have "hide_loop p q s = hide_loop p a s"
    using hide_loop_spacer [of q p s] sp by simp
  also have "\<dots> = Some (Inr (fold unl [a..p - 1] s))"
    using "0.prems"(4) p by (intro hide_loop_tail [of a a p s V]) (simp_all add: e)
  finally show ?case by (simp add: e)
next
  case (Suc n)
  then have qb: "q \<le> b" by simp
  then have u: "[q..b] = q # [q + 1..b]" by (simp add: upto_rec1)
  from Suc.prems(4) have R: "RINGS s V" and ok: "okq s V q" by (simp_all add: GOOD_def u)
  from Suc.prems(4) have "GOOD s V ([q] @ ([q + 1..b] @ [a..p - 1]))" by (simp add: u)
  from GOOD_fold [OF this] have G: "GOOD (unl q s) (Vdel {q} V) ([q + 1..b] @ [a..p - 1])"
    and F: "frame s (unl q s)" by simp_all
  have row': "rowok (unl q s) str r a b" by (rule rowok_frame [OF Suc.prems(1) F])
  have "hide_loop p q s = hide_loop p (q + 1) (unl q s)"
    using Suc.prems(2) by (intro hide_loop_step [OF _ R ok]) simp
  also have "\<dots> = Some (Inr (fold unl ([q + 1..b] @ [a..p - 1]) (unl q s)))"
    using Suc.hyps(2) Suc.prems(2) qb by (intro Suc.hyps(1) [OF _ row' _ _ G]) simp_all
  finally show ?case by (simp add: u)
qed

lemma hide_ok:
  assumes "rowok s str r a b" "a \<le> p" "p \<le> b" "GOOD s V (oth a b p)"
  shows "hide p s = Some (Inr (fold unl (oth a b p) s))"
  unfolding hide_def oth_def
  using assms by (intro hide_loop_head [where V = V and str = str and r = r]) (simp_all add: oth_def)

lemma unhide_loop_head:
  assumes p: "p \<le> q" and G: "GOOD s V [p + 1..q]"
  shows "unhide_loop p q (fold unl [p + 1..q] s) = Some (Inr s)"
  using assms
proof (induction "nat (q - p)" arbitrary: q)
  case 0
  then have "q = p" by simp
  then show ?case by (simp add: unhide_loop_done)
next
  case (Suc n)
  then have qp: "p < q" by simp
  then have u: "[p + 1..q] = [p + 1..q - 1] @ [q]" by (simp add: upto_rec2)
  let ?m = "fold unl [p + 1..q - 1] s"
  from GOOD_fold [of s V "[p + 1..q - 1]" "[q]"] Suc.prems(2)
  have G1: "GOOD ?m (Vdel (set [p + 1..q - 1]) V) [q]" by (simp add: u)
  then have R: "RINGS ?m (Vdel (set [p + 1..q - 1]) V)" and ok: "okq ?m (Vdel (set [p + 1..q - 1]) V) q"
    by (simp_all add: GOOD_def)
  have G2: "GOOD s V [p + 1..q - 1]" using Suc.prems(2) by (auto simp: GOOD_def u)
  have "unhide_loop p q (fold unl [p + 1..q] s) = unhide_loop p q (unl q ?m)" by (simp add: u)
  also have "\<dots> = unhide_loop p (q - 1) ?m"
    using qp by (intro unhide_loop_step [OF _ R ok]) simp
  also have "\<dots> = Some (Inr s)"
    using Suc.hyps(2) qp by (intro Suc.hyps(1) [OF _ _ G2]) simp_all
  finally show ?case .
qed

lemma unhide_loop_tail:
  assumes row: "rowok s str r a b" and p: "a \<le> p" "p \<le> b" and q: "a - 1 \<le> q" "q \<le> p - 1"
    and G: "GOOD s V ([p + 1..b] @ [a..q])"
  shows "unhide_loop p q (fold unl ([p + 1..b] @ [a..q]) s) = Some (Inr s)"
  using q G
proof (induction "nat (q - a + 1)" arbitrary: q)
  case 0
  then have qa: "q = a - 1" by simp
  then have e: "[a..q] = []" by simp
  let ?t = "fold unl [p + 1..b] s"
  have G1: "GOOD s V [p + 1..b]" using "0.prems"(3) by (simp add: e)
  from GOOD_fold [of s V "[p + 1..b]" "[]"] G1 have F: "frame s ?t" by simp
  have row': "rowok ?t str r a b" by (rule rowok_frame [OF row F])
  have sp: "valid ?t q" "top ?t q \<le> 0" "dlink ?t q = b"
    using rowok_valid [OF row', of q] row' qa by (simp_all add: rowok_def)
  have "q \<noteq> p" using "0.prems" by simp
  then have "unhide_loop p q ?t = unhide_loop p b ?t"
    using unhide_loop_spacer [of q p ?t] sp by simp
  also have "\<dots> = Some (Inr s)"
    using p G1 by (intro unhide_loop_head) simp_all
  finally show ?case by (simp add: e)
next
  case (Suc n)
  then have qa: "a \<le> q" by simp
  then have u: "[a..q] = [a..q - 1] @ [q]" by (simp add: upto_rec2)
  let ?pre = "[p + 1..b] @ [a..q - 1]"
  let ?m = "fold unl ?pre s"
  from GOOD_fold [of s V ?pre "[q]"] Suc.prems(3)
  have G1: "GOOD ?m (Vdel (set ?pre) V) [q]" by (simp add: u)
  then have R: "RINGS ?m (Vdel (set ?pre) V)" and ok: "okq ?m (Vdel (set ?pre) V) q"
    by (simp_all add: GOOD_def)
  have G2: "GOOD s V ?pre" using Suc.prems(3) by (auto simp: GOOD_def u)
  have "unhide_loop p q (fold unl ([p + 1..b] @ [a..q]) s) = unhide_loop p q (unl q ?m)"
    by (simp add: u)
  also have "\<dots> = unhide_loop p (q - 1) ?m"
    using Suc.prems(2) by (intro unhide_loop_step [OF _ R ok]) simp
  also have "\<dots> = Some (Inr s)"
    using Suc.hyps(2) Suc.prems(2) qa by (intro Suc.hyps(1) [OF _ _ _ G2]) simp_all
  finally show ?case .
qed

lemma unhide_ok:
  assumes "rowok s str r a b" "a \<le> p" "p \<le> b" "GOOD s V (oth a b p)"
  shows "unhide p (fold unl (oth a b p) s) = Some (Inr s)"
  unfolding unhide_def oth_def
  using assms by (intro unhide_loop_tail [where V = V and str = str and r = r]) (simp_all add: oth_def)

section \<open>Rows are disjoint\<close>

lemma row_top_inj:
  assumes r: "rowok s str r a b" and p: "a \<le> p" "p \<le> b" "a \<le> p'" "p' \<le> b"
    and t: "top s p = top s p'"
  shows "p = p'"
proof -
  from r have "map (top s) [a..b] = ones str" by (simp add: rowok_def)
  then have "distinct (map (top s) [a..b])" using ones_distinct [of str] by simp
  then have "inj_on (top s) (set [a..b])" by (simp add: distinct_map)
  then show ?thesis using p t by (auto dest: inj_onD)
qed

lemma span_unique:
  assumes s: "static s strs sp" and r: "r < length sp" "r' < length sp"
    and q: "fst (sp ! r) \<le> q" "q \<le> snd (sp ! r)" "fst (sp ! r') \<le> q" "q \<le> snd (sp ! r')"
  shows "r = r'"
proof -
  define a b a' b' where "a = fst (sp ! r)" and "b = snd (sp ! r)"
    and "a' = fst (sp ! r')" and "b' = snd (sp ! r')"
  note R = static_row [OF s r(1), folded a_def b_def]
  note R' = static_row [OF s r(2), folded a'_def b'_def]
  have T: "\<And>x. a \<le> x \<Longrightarrow> x \<le> b \<Longrightarrow> 1 \<le> top s x"
    using rowok_top_bounds [OF R] by simp
  have T': "\<And>x. a' \<le> x \<Longrightarrow> x \<le> b' \<Longrightarrow> 1 \<le> top s x"
    using rowok_top_bounds [OF R'] by simp
  have S: "top s (a - 1) \<le> 0" "top s (b + 1) = - (int r + 1)" using R by (simp_all add: rowok_def)
  have S': "top s (a' - 1) \<le> 0" "top s (b' + 1) = - (int r' + 1)" using R' by (simp_all add: rowok_def)
  have qq: "a \<le> q" "q \<le> b" "a' \<le> q" "q \<le> b'" using q by (simp_all add: a_def b_def a'_def b'_def)
  have "a = a'"
  proof (rule ccontr)
    assume "a \<noteq> a'"
    then consider "a < a'" | "a' < a" by linarith
    then show False
    proof cases
      case 1
      then have "1 \<le> top s (a' - 1)" using qq by (intro T) simp_all
      with S' show False by simp
    next
      case 2
      then have "1 \<le> top s (a - 1)" using qq by (intro T') simp_all
      with S show False by simp
    qed
  qed
  have "b = b'"
  proof (rule ccontr)
    assume "b \<noteq> b'"
    then consider "b < b'" | "b' < b" by linarith
    then show False
    proof cases
      case 1
      then have "1 \<le> top s (b + 1)" using qq by (intro T') simp_all
      with S show False by simp
    next
      case 2
      then have "1 \<le> top s (b' + 1)" using qq by (intro T) simp_all
      with S' show False by simp
    qed
  qed
  with S S' show ?thesis by simp
qed

lemma span_of_row:
  assumes s: "static s strs sp" and r: "r < length sp"
    and q: "fst (sp ! r) \<le> q" "q \<le> snd (sp ! r)"
  shows "span_of sp q = sp ! r"
proof (cases "find (\<lambda>ab. fst ab \<le> q \<and> q \<le> snd ab) sp")
  case None
  then have "\<not> (fst (sp ! r) \<le> q \<and> q \<le> snd (sp ! r))"
    using r by (auto simp: find_None_iff)
  with q show ?thesis by simp
next
  case (Some ab)
  then obtain k where k: "k < length sp" "fst (sp ! k) \<le> q \<and> q \<le> snd (sp ! k)" "ab = sp ! k"
    by (auto simp: find_Some_iff)
  have "k = r" using span_unique [OF s k(1) r, of q] k(2) q by blast
  then show ?thesis using Some k(3) by (simp add: span_of_def)
qed

lemma set_oth: "a \<le> p \<Longrightarrow> p \<le> b \<Longrightarrow> set (oth a b p) = {a..b} - {p}"
  by (auto simp: oth_def)

lemma distinct_oth: "distinct (oth a b p)"
  by (auto simp: oth_def)

lemma distinct_concat_map:
  "distinct ps \<Longrightarrow> (\<forall>p \<in> set ps. distinct (f p)) \<Longrightarrow>
     (\<forall>p \<in> set ps. \<forall>p' \<in> set ps. p \<noteq> p' \<longrightarrow> set (f p) \<inter> set (f p') = {}) \<Longrightarrow>
     distinct (concat (map f ps))"
  by (induction ps) auto

lemma INV_row:
  assumes "INV s strs sp H V" "q \<in> set (V c)"
  obtains r where "r < length sp" "fst (sp ! r) \<le> q" "q \<le> snd (sp ! r)"
proof -
  from assms obtain ab where "ab \<in> set sp" "fst ab \<le> q" "q \<le> snd ab"
    unfolding INV_def by blast
  then show ?thesis using that by (auto simp: in_set_conv_nth)
qed

lemma INV_live:
  assumes "INV s strs sp H V" "r < length sp" "fst (sp ! r) \<le> q" "q \<le> snd (sp ! r)"
    "top s q \<in> set H"
  shows "q \<in> set (V (top s q)) \<longleftrightarrow> rowlive s H (sp ! r)"
proof -
  have "sp ! r \<in> set sp" using assms(2) by simp
  moreover have "q \<in> {fst (sp ! r)..snd (sp ! r)}" using assms(3,4) by simp
  ultimately show ?thesis using assms(1,5) unfolding INV_def by blast
qed

lemma INV_parts:
  assumes "INV s strs sp H V"
  shows "static s strs sp" "RINGS s V" "hring s H"
  using assms by (simp_all add: INV_def)

lemma RINGS_elem:
  assumes "RINGS s V" "1 \<le> c" "c \<le> nitems s" "q \<in> set (V c)"
  shows "nitems s < q" "valid s q" "top s q = c"
  using assms unfolding RINGS_def vring_def by blast+

lemma hring_item: "hring s H \<Longrightarrow> i \<in> set H \<Longrightarrow> 1 \<le> i \<and> i \<le> nitems s"
  unfolding hring_def by blast

text \<open>The nodes that \<open>cover i\<close> unlinks are linked, distinct and outside the list of \<open>i\<close>.\<close>

lemma hidden_mem:
  "q \<in> set (hidden sp ps) \<longleftrightarrow> (\<exists>p \<in> set ps. q \<in> set (othp sp p))"
  by (auto simp: hidden_def)

lemma othp_row:
  assumes "static s strs sp" "r < length sp" "fst (sp ! r) \<le> p" "p \<le> snd (sp ! r)"
  shows "othp sp p = oth (fst (sp ! r)) (snd (sp ! r)) p"
    and "set (othp sp p) = {fst (sp ! r)..snd (sp ! r)} - {p}"
  using span_of_row [OF assms] assms(3,4) by (simp_all add: othp_def set_oth)

lemma hidden_good:
  assumes I: "INV s strs sp H V" and i: "i \<in> set H"
  shows "GOOD s V (hidden sp (V i))" and "set (hidden sp (V i)) \<inter> set (V i) = {}"
proof -
  note st = INV_parts(1) [OF I] and R = INV_parts(2) [OF I] and hr = INV_parts(3) [OF I]
  from hring_item [OF hr i] have i1: "1 \<le> i" and iN: "i \<le> nitems s" by simp_all
  have key: "nitems s < q \<and> valid s q \<and> top s q \<in> set H \<and> q \<in> set (V (top s q)) \<and> top s q \<noteq> i
    \<and> r < length sp \<and> fst (sp ! r) \<le> q \<and> q \<le> snd (sp ! r)"
    if p: "p \<in> set (V i)" and r: "r < length sp" "fst (sp ! r) \<le> p" "p \<le> snd (sp ! r)"
      and q: "q \<in> set (othp sp p)" for p q r
  proof -
    note row = static_row [OF st r(1)]
    from q have qr: "fst (sp ! r) \<le> q" "q \<le> snd (sp ! r)" "q \<noteq> p"
      using othp_row(2) [OF st r] by auto
    have tp: "top s p = i" using RINGS_elem(3) [OF R i1 iN p] .
    then have "p \<in> set (V (top s p))" "top s p \<in> set H" using p i by simp_all
    then have live: "rowlive s H (sp ! r)" using INV_live [OF I r] by simp
    then have tq: "top s q \<in> set H" using qr by (simp add: rowlive_def)
    then have "q \<in> set (V (top s q))" using INV_live [OF I r(1) qr(1,2)] live by simp
    moreover have "top s q \<noteq> i" using row_top_inj [OF row qr(1,2) r(2,3)] qr(3) tp by auto
    ultimately show ?thesis using rowok_valid [OF row, of q] qr tq r(1) by simp
  qed
  have ok: "okq s V q" if "q \<in> set (hidden sp (V i))" for q
  proof -
    from that obtain p where p: "p \<in> set (V i)" "q \<in> set (othp sp p)" by (auto simp: hidden_mem)
    from INV_row [OF I p(1)] obtain r where r: "r < length sp" "fst (sp ! r) \<le> p" "p \<le> snd (sp ! r)" .
    from key [OF p(1) r p(2)] hring_item [OF hr, of "top s q"] show ?thesis by (simp add: okq_def)
  qed
  have d: "distinct (hidden sp (V i))"
    unfolding hidden_def
  proof (rule distinct_concat_map, goal_cases)
    case 1
    show ?case using R i1 iN unfolding RINGS_def vring_def by blast
  next
    case 2
    show ?case by (simp add: othp_def distinct_oth)
  next
    case 3
    show ?case
    proof (intro ballI impI)
      fix p p' assume p: "p \<in> set (V i)" and p': "p' \<in> set (V i)" and ne: "p \<noteq> p'"
      from INV_row [OF I p] obtain r where r: "r < length sp" "fst (sp ! r) \<le> p" "p \<le> snd (sp ! r)" .
      from INV_row [OF I p'] obtain r' where r': "r' < length sp" "fst (sp ! r') \<le> p'" "p' \<le> snd (sp ! r')" .
      show "set (othp sp p) \<inter> set (othp sp p') = {}"
      proof (rule ccontr)
        assume "set (othp sp p) \<inter> set (othp sp p') \<noteq> {}"
        then obtain q where q: "q \<in> set (othp sp p)" "q \<in> set (othp sp p')" by auto
        from q have "fst (sp ! r) \<le> q" "q \<le> snd (sp ! r)" "fst (sp ! r') \<le> q" "q \<le> snd (sp ! r')"
          using othp_row(2) [OF st r] othp_row(2) [OF st r'] by auto
        from span_unique [OF st r(1) r'(1) this] have rr: "r = r'" .
        have "top s p = top s p'"
          using RINGS_elem(3) [OF R i1 iN p] RINGS_elem(3) [OF R i1 iN p'] by simp
        from row_top_inj [OF static_row [OF st r(1)] r(2,3) _ _ this] r' rr ne show False by simp
      qed
    qed
  qed
  show "GOOD s V (hidden sp (V i))" using R d ok by (simp add: GOOD_def)
  show "set (hidden sp (V i)) \<inter> set (V i) = {}"
  proof (rule ccontr)
    assume "set (hidden sp (V i)) \<inter> set (V i) \<noteq> {}"
    then obtain q where q: "q \<in> set (hidden sp (V i))" "q \<in> set (V i)" by auto
    from q(1) obtain p where p: "p \<in> set (V i)" "q \<in> set (othp sp p)" by (auto simp: hidden_mem)
    from INV_row [OF I p(1)] obtain r where r: "r < length sp" "fst (sp ! r) \<le> p" "p \<le> snd (sp ! r)" .
    from key [OF p(1) r p(2)] RINGS_elem(3) [OF R i1 iN q(2)] show False by simp
  qed
qed

section \<open>The loops of cover and uncover\<close>

lemma bindR_simps [simp]:
  "bindR (Some (Inr x)) f = f x"
  "bindR (Some (Inl e)) f = Some (Inl e)"
  "bindR None f = None"
  by (simp_all add: bindR_def)

lemma GOOD_prefix: "GOOD s V (xs @ ys) \<Longrightarrow> GOOD s V xs"
  by (auto simp: GOOD_def)

lemma hidden_Cons: "hidden sp (p # ps) = othp sp p @ hidden sp ps"
  by (simp add: hidden_def)

lemma hidden_snoc: "hidden sp (ps @ [p]) = hidden sp ps @ othp sp p"
  by (simp add: hidden_def)

lemma cover_loop_ok:
  assumes "static s strs sp" "1 \<le> i" "i \<le> nitems s" "V i = pre @ ps"
    "GOOD s V (hidden sp ps)" "set (hidden sp ps) \<inter> set (V i) = {}"
    "\<forall>p \<in> set ps. \<exists>r < length sp. fst (sp ! r) \<le> p \<and> p \<le> snd (sp ! r)"
  shows "cover_loop i (hd (ps @ [i])) s = Some (Inr (fold unl (hidden sp ps) s))"
  using assms
proof (induction ps arbitrary: s V pre)
  case Nil
  show ?case by (subst cover_loop.simps) (simp add: hidden_def)
next
  case (Cons p ps)
  from Cons.prems(7) obtain r where r: "r < length sp" "fst (sp ! r) \<le> p" "p \<le> snd (sp ! r)"
    by auto
  define a b where "a = fst (sp ! r)" and "b = snd (sp ! r)"
  note st = Cons.prems(1)
  note row = static_row [OF st r(1), folded a_def b_def]
  have o: "othp sp p = oth a b p" using othp_row(1) [OF st r] by (simp add: a_def b_def)
  let ?s1 = "fold unl (oth a b p) s"
  let ?V1 = "Vdel (set (oth a b p)) V"
  have G: "GOOD s V (oth a b p @ hidden sp ps)" using Cons.prems(5) by (simp add: hidden_Cons o)
  have R: "RINGS s V" using G by (simp add: GOOD_def)
  have pin: "p \<in> set (V i)" using Cons.prems(4) by simp
  note pe = RINGS_elem [OF R Cons.prems(2,3) pin]
  have pi: "p \<noteq> i" using pe(1) Cons.prems(3) by simp
  have h: "hide p s = Some (Inr ?s1)"
    using r by (intro hide_ok [OF row _ _ GOOD_prefix [OF G]]) (simp_all add: a_def b_def)
  from GOOD_fold [OF G] have G1: "GOOD ?s1 ?V1 (hidden sp ps)" and F: "frame s ?s1" by simp_all
  have V1i: "?V1 i = V i"
    using Cons.prems(6) by (intro Vdel_id) (auto simp: hidden_Cons o)
  have R1: "RINGS ?s1 ?V1" using G1 by (simp add: GOOD_def)
  have N1: "nitems ?s1 = nitems s" by (rule frame_same(1) [OF F])
  have "vring ?s1 i (pre @ p # ps)"
    using R1 Cons.prems(2,3,4) V1i N1 unfolding RINGS_def by metis
  then have "dpath (dlink ?s1) (ulink ?s1) p ps i" by (simp add: vring_def dpath_append)
  from dpath_hd [OF this] have nx: "dlink ?s1 p = hd (ps @ [i])" by simp
  have vp: "valid ?s1 p" using pe(2) frame_same(2) [OF F] by simp
  have "cover_loop i (hd ((p # ps) @ [i])) s = cover_loop i (hd (ps @ [i])) ?s1"
    using pi h vp nx by (subst cover_loop.simps) simp
  also have "\<dots> = Some (Inr (fold unl (hidden sp ps) ?s1))"
  proof (rule Cons.IH [of ?s1 ?V1 "pre @ [p]"])
    show "static ?s1 strs sp" by (rule static_frame [OF st F])
    show "1 \<le> i" "i \<le> nitems ?s1" using Cons.prems(2,3) N1 by simp_all
    show "?V1 i = (pre @ [p]) @ ps" using V1i Cons.prems(4) by simp
    show "GOOD ?s1 ?V1 (hidden sp ps)" by (rule G1)
    show "set (hidden sp ps) \<inter> set (?V1 i) = {}"
      using Cons.prems(6) V1i by (auto simp: hidden_Cons)
    show "\<forall>p \<in> set ps. \<exists>r < length sp. fst (sp ! r) \<le> p \<and> p \<le> snd (sp ! r)"
      using Cons.prems(7) by simp
  qed
  finally show ?case by (simp add: hidden_Cons o)
qed

lemma uncover_loop_ok:
  assumes st: "static s strs sp" and i: "1 \<le> i" "i \<le> nitems s"
  shows "V i = ps @ post \<Longrightarrow> GOOD s V (hidden sp ps) \<Longrightarrow>
    set (hidden sp ps) \<inter> set (V i) = {} \<Longrightarrow>
    \<forall>p \<in> set ps. \<exists>r < length sp. fst (sp ! r) \<le> p \<and> p \<le> snd (sp ! r) \<Longrightarrow>
    uncover_loop i (last (i # ps)) (fold unl (hidden sp ps) s) = Some (Inr s)"
proof (induction ps arbitrary: post rule: rev_induct)
  case Nil
  show ?case by (subst uncover_loop.simps) (simp add: hidden_def)
next
  case (snoc p ps)
  from snoc.prems(4) obtain r where r: "r < length sp" "fst (sp ! r) \<le> p" "p \<le> snd (sp ! r)"
    by auto
  define a b where "a = fst (sp ! r)" and "b = snd (sp ! r)"
  have o: "othp sp p = oth a b p" using othp_row(1) [OF st r] by (simp add: a_def b_def)
  let ?m = "fold unl (hidden sp ps) s"
  let ?Vm = "Vdel (set (hidden sp ps)) V"
  let ?t = "fold unl (oth a b p) ?m"
  have G: "GOOD s V (hidden sp ps @ oth a b p)" using snoc.prems(2) by (simp add: hidden_snoc o)
  from GOOD_fold [OF G] have Gm: "GOOD ?m ?Vm (oth a b p)" and F: "frame s ?m" by simp_all
  have R: "RINGS s V" using G by (simp add: GOOD_def)
  have Rm: "RINGS ?m ?Vm" using Gm by (simp add: GOOD_def)
  have pin: "p \<in> set (V i)" using snoc.prems(1) by simp
  note pe = RINGS_elem [OF R i pin]
  have pi: "p \<noteq> i" using pe(1) i by simp
  note row = rowok_frame [OF static_row [OF st r(1), folded a_def b_def] F]
  have h: "unhide p ?t = Some (Inr ?m)"
    using r by (intro unhide_ok [OF row _ _ Gm]) (simp_all add: a_def b_def)
  have Vmi: "?Vm i = V i"
    using snoc.prems(3) by (intro Vdel_id) (auto simp: hidden_snoc)
  have Nm: "nitems ?m = nitems s" by (rule frame_same(1) [OF F])
  have "vring ?m i (ps @ p # post)"
    using Rm i snoc.prems(1) Vmi Nm unfolding RINGS_def by (metis append.assoc append_Cons append_Nil)
  then have "dpath (dlink ?m) (ulink ?m) i ps p" by (simp add: vring_def dpath_append)
  from dpath_last [OF this] have pv: "ulink ?m p = last (i # ps)" by simp
  have vp: "valid ?m p" using pe(2) frame_same(2) [OF F] by simp
  have "uncover_loop i (last (i # ps @ [p])) (fold unl (hidden sp (ps @ [p])) s)
      = uncover_loop i p ?t" by (simp add: hidden_snoc o)
  also have "\<dots> = uncover_loop i (last (i # ps)) ?m"
    using pi h vp pv by (subst uncover_loop.simps) simp
  also have "\<dots> = Some (Inr s)"
  proof (rule snoc.IH [of "p # post"])
    show "V i = ps @ p # post" using snoc.prems(1) by simp
    show "GOOD s V (hidden sp ps)" by (rule GOOD_prefix [OF G])
    show "set (hidden sp ps) \<inter> set (V i) = {}" using snoc.prems(3) by (auto simp: hidden_snoc)
    show "\<forall>p \<in> set ps. \<exists>r < length sp. fst (sp ! r) \<le> p \<and> p \<le> snd (sp ! r)"
      using snoc.prems(4) by simp
  qed
  finally show ?case .
qed

section \<open>Unlinking an item from the horizontal list\<close>

lemma name_set [simp]:
  "name (set_llink s i v) j = name s j"
  "name (set_rlink s i v) j = name s j"
  by (simp_all add: name_def set_llink_def set_rlink_def node_upd_other)

lemma hunl_simps [simp]:
  "nodes (hunl i s) = nodes s" "length (headers (hunl i s)) = length (headers s)"
  "nrows (hunl i s) = nrows s" "ncount (hunl i s) = ncount s"
  "valid (hunl i s) j = valid s j" "hvalid (hunl i s) j = hvalid s j"
  "nitems (hunl i s) = nitems s" "name (hunl i s) j = name s j"
  "top (hunl i s) j = top s j" "len (hunl i s) j = len s j"
  "ulink (hunl i s) j = ulink s j" "dlink (hunl i s) j = dlink s j"
  by (simp_all add: hunl_def Let_def)

lemma hrel_simps [simp]:
  "nodes (hrel i s) = nodes s" "length (headers (hrel i s)) = length (headers s)"
  "nrows (hrel i s) = nrows s" "ncount (hrel i s) = ncount s"
  "valid (hrel i s) j = valid s j" "hvalid (hrel i s) j = hvalid s j"
  "nitems (hrel i s) = nitems s" "name (hrel i s) j = name s j"
  "top (hrel i s) j = top s j" "len (hrel i s) j = len s j"
  "ulink (hrel i s) j = ulink s j" "dlink (hrel i s) j = dlink s j"
  by (simp_all add: hrel_def Let_def)

lemma hunl_fields:
  assumes "hvalid s (llink s i)" "hvalid s (rlink s i)" "hvalid s j"
  shows "rlink (hunl i s) j = (if j = llink s i then rlink s i else rlink s j)"
    and "llink (hunl i s) j = (if j = rlink s i then llink s i else llink s j)"
  using assms by (simp_all add: hunl_def Let_def)

lemma hrel_fields:
  assumes "hvalid s (llink s i)" "hvalid s (rlink s i)" "hvalid s j"
  shows "rlink (hrel i s) j = (if j = llink s i then i else rlink s j)"
    and "llink (hrel i s) j = (if j = rlink s i then i else llink s j)"
  using assms by (simp_all add: hrel_def Let_def)

lemma hrel_hunl:
  assumes v: "hvalid s i" "hvalid s (llink s i)" "hvalid s (rlink s i)"
    and ne: "llink s i \<noteq> i" "rlink s i \<noteq> i"
    and l: "rlink s (llink s i) = i" "llink s (rlink s i) = i"
  shows "hrel i (hunl i s) = s"
proof -
  let ?t = "hunl i s"
  have ti: "llink ?t i = llink s i" "rlink ?t i = rlink s i"
    using hunl_fields [OF v(2,3,1)] ne by auto
  have vt: "hvalid ?t (llink ?t i)" "hvalid ?t (rlink ?t i)" using v by (simp_all add: ti)
  show ?thesis
  proof (rule DLink_eqI)
    fix j assume "hvalid (hrel i ?t) j"
    then have j: "hvalid s j" "hvalid ?t j" by simp_all
    have "rlink (hrel i ?t) j = (if j = llink s i then i else rlink ?t j)"
      using hrel_fields(1) [OF vt j(2)] ti by simp
    moreover have "rlink ?t j = (if j = llink s i then rlink s i else rlink s j)"
      by (rule hunl_fields(1) [OF v(2,3) j(1)])
    ultimately have 1: "rlink (hrel i ?t) j = rlink s j" using l by auto
    have "llink (hrel i ?t) j = (if j = rlink s i then i else llink ?t j)"
      using hrel_fields(2) [OF vt j(2)] ti by simp
    moreover have "llink ?t j = (if j = rlink s i then llink s i else llink s j)"
      by (rule hunl_fields(2) [OF v(2,3) j(1)])
    ultimately have 2: "llink (hrel i ?t) j = llink s j" using l by auto
    from 1 2 show "name (hrel i ?t) j = name s j \<and> llink (hrel i ?t) j = llink s j \<and>
      rlink (hrel i ?t) j = rlink s j" by simp
  qed simp_all
qed

lemma hring_hvalid: "hring s H \<Longrightarrow> i \<in> set (0 # H) \<Longrightarrow> hvalid s i"
  by (auto simp: hring_def hvalid_def nitems_def)

lemma hunl_hring:
  assumes hr: "hring s H" and i: "i \<in> set H"
  shows "hring (hunl i s) (remove1 i H)"
    and "hrel i (hunl i s) = s"
    and "hvalid s i \<and> hvalid s (llink s i) \<and> hvalid s (rlink s i)"
    and "llink (hunl i s) i = llink s i \<and> rlink (hunl i s) i = rlink s i"
proof -
  define l r where "l = llink s i" and "r = rlink s i"
  from i obtain xs ys where H: "H = xs @ i # ys" by (auto dest: split_list)
  from hr have dp: "dpath (rlink s) (llink s) 0 (xs @ i # ys) 0"
    and dist: "distinct (xs @ i # ys)" and z: "0 \<notin> set (xs @ i # ys)"
    unfolding hring_def H by force+
  have hv: "\<And>x. x \<in> set (0 # H) \<Longrightarrow> hvalid s x" using hring_hvalid [OF hr] .
  from dp have dp1: "dpath (rlink s) (llink s) 0 xs i" and dp2: "dpath (rlink s) (llink s) i ys 0"
    by (simp_all add: dpath_append)
  have ll: "l = last (0 # xs)" and rl: "rlink s l = i"
    using dpath_last [OF dp1] by (simp_all add: l_def)
  have rh: "r = hd (ys @ [0])" and lr: "llink s r = i"
    using dpath_hd [OF dp2] by (simp_all add: r_def)
  have "last (0 # xs) \<in> set (0 # xs)" by (rule last_in_set) simp
  then have lin: "l \<in> set (0 # xs)" by (simp add: ll)
  have "hd (ys @ [0]) \<in> set (ys @ [0])" by (rule hd_in_set) simp
  then have rin: "r \<in> set (0 # ys)" by (auto simp: rh)
  have lv: "hvalid s l" using lin by (intro hv) (auto simp: H)
  have rv: "hvalid s r" using rin by (intro hv) (auto simp: H)
  have iv: "hvalid s i" using i by (intro hv) simp
  have li: "l \<noteq> i" using lin dist z by auto
  have ri: "r \<noteq> i" using rin dist z by auto
  note F = hunl_fields [of s i, folded l_def r_def, OF lv rv]
  show "hvalid s i \<and> hvalid s (llink s i) \<and> hvalid s (rlink s i)"
    using iv lv rv by (simp add: l_def r_def)
  show "llink (hunl i s) i = llink s i \<and> rlink (hunl i s) i = rlink s i"
    using F [OF iv] li ri by (auto simp: l_def r_def)
  show "hrel i (hunl i s) = s"
    using iv lv rv li ri rl lr by (intro hrel_hunl) (simp_all add: l_def r_def)
  have "dpath (rlink (hunl i s)) (llink (hunl i s)) 0 (xs @ ys) 0"
  proof (rule dpath_remove [OF dp dist z z])
    show "rlink (hunl i s) (last (0 # xs)) = hd (ys @ [0])"
      unfolding ll [symmetric] rh [symmetric] using F(1) [OF lv] by simp
    show "llink (hunl i s) (hd (ys @ [0])) = last (0 # xs)"
      unfolding ll [symmetric] rh [symmetric] using F(2) [OF rv] by simp
    show "\<forall>x \<in> set (0 # xs @ ys). x \<noteq> last (0 # xs) \<longrightarrow> rlink (hunl i s) x = rlink s x"
      unfolding ll [symmetric] using F(1) hv by (auto simp: H)
    show "\<forall>x \<in> set (xs @ ys @ [0]). x \<noteq> hd (ys @ [0]) \<longrightarrow> llink (hunl i s) x = llink s x"
      unfolding rh [symmetric] using F(2) hv by (auto simp: H)
  qed
  moreover have "remove1 i H = xs @ ys" using dist by (simp add: H remove1_append)
  ultimately show "hring (hunl i s) (remove1 i H)"
    using hr dist unfolding hring_def H by auto
qed

section \<open>cover and uncover\<close>

lemma hunl_funs:
  "top (hunl i s) = top s" "len (hunl i s) = len s"
  "ulink (hunl i s) = ulink s" "dlink (hunl i s) = dlink s"
  by (rule ext, simp)+

lemma ncount_funs:
  "top (s\<lparr>ncount := m\<rparr>) = top s" "len (s\<lparr>ncount := m\<rparr>) = len s"
  "ulink (s\<lparr>ncount := m\<rparr>) = ulink s" "dlink (s\<lparr>ncount := m\<rparr>) = dlink s"
  "llink (s\<lparr>ncount := m\<rparr>) = llink s" "rlink (s\<lparr>ncount := m\<rparr>) = rlink s"
  by (rule ext, simp)+

lemma static_hunl: "static (hunl i s) strs sp = static s strs sp"
  by (simp add: static_def rowok_def lastindex_def hunl_funs)

lemma RINGS_hunl: "RINGS (hunl i s) V = RINGS s V"
  by (simp add: RINGS_def vring_def hunl_funs)

lemma cover_ok:
  assumes I: "INV s strs sp H V" and i: "i \<in> set H"
  shows "cover i s = Some (Inr (covS sp (V i) i s))"
    and "uncover i (covS sp (V i) i s) = Some (Inr s)"
    and "INV (covS sp (V i) i s) strs sp (remove1 i H) (Vdel (set (hidden sp (V i))) V)"
    and "Vdel (set (hidden sp (V i))) V i = V i"
proof -
  note st = INV_parts(1) [OF I] and R = INV_parts(2) [OF I] and hr = INV_parts(3) [OF I]
  from hring_item [OF hr i] have i1: "1 \<le> i" and iN: "i \<le> nitems s" by simp_all
  define hid where "hid = hidden sp (V i)"
  define m where "m = fold unl hid s"
  define V' where "V' = Vdel (set hid) V"
  define H' where "H' = remove1 i H"
  define t where "t = covS sp (V i) i s"
  have tm: "t = hunl i m" by (simp add: t_def covS_def m_def hid_def)
  note hg = hidden_good [OF I i, folded hid_def]
  have rows: "\<forall>p \<in> set (V i). \<exists>r < length sp. fst (sp ! r) \<le> p \<and> p \<le> snd (sp ! r)"
    using INV_row [OF I] by metis
  from GOOD_fold [of s V hid "[]"] hg(1)
  have Rm: "RINGS m V'" and F: "frame s m" by (simp_all add: GOOD_def m_def V'_def)
  have iv: "valid s i" using R i1 iN by (simp add: RINGS_def valid_def)
  have vr: "vring s i (V i)" using R i1 iN by (simp add: RINGS_def)
  have Vi: "V' i = V i" unfolding V'_def using hg(2) by (rule Vdel_id)
  show "Vdel (set (hidden sp (V i))) V i = V i" using Vi by (simp add: V'_def hid_def)
  have hm: "hring m H" by (rule hring_frame [OF hr F])
  note HU = hunl_hring [OF hm i]
  have cl: "cover_loop i (dlink s i) s = Some (Inr m)"
  proof -
    have "dlink s i = hd (V i @ [i])" using dpath_hd [of "dlink s" "ulink s" i "V i" i] vr
      by (simp add: vring_def)
    then show ?thesis
      using cover_loop_ok [OF st i1 iN, of V "[]" "V i"] hg rows by (simp add: hid_def m_def)
  qed
  show "cover i s = Some (Inr (covS sp (V i) i s))"
    unfolding cover_def using iv cl HU(3) by (simp add: t_def [symmetric] tm hunl_def Let_def)
  have "hrel i t = m" using HU(2) by (simp add: tm)
  then have hre: "set_llink (set_rlink t (llink t i) i) (rlink t i) i = m"
    by (simp add: hrel_def Let_def)
  have tv: "hvalid t i \<and> hvalid t (llink t i) \<and> hvalid t (rlink t i)"
    using HU(3,4) by (simp add: tm)
  have ul: "uncover_loop i (ulink m i) m = Some (Inr s)"
  proof -
    have "vring m i (V i)" using Rm i1 iN Vi frame_same(1) [OF F] unfolding RINGS_def by metis
    then have "ulink m i = last (i # V i)" using dpath_last [of "dlink m" "ulink m" i "V i" i]
      by (simp add: vring_def)
    then show ?thesis
      using uncover_loop_ok [OF st i1 iN, of V "V i" "[]"] hg rows by (simp add: hid_def m_def)
  qed
  have "valid m i" using iv frame_same(2) [OF F] by simp
  then show "uncover i (covS sp (V i) i s) = Some (Inr s)"
    unfolding uncover_def t_def [symmetric] using tv hre ul by (simp add: Let_def)
  have stt: "static t strs sp" using static_frame [OF st F] by (simp add: tm static_hunl)
  have Rt: "RINGS t V'" using Rm by (simp add: tm RINGS_hunl)
  have ht: "hring t H'" using HU(1) by (simp add: tm H'_def)
  have setH': "set H' = set H - {i}" using hr by (simp add: H'_def hring_def)
  have sub: "\<And>c. set (V' c) \<subseteq> set (V c)" by (auto simp: V'_def Vdel_def)
  have c4: "\<forall>c. \<forall>q \<in> set (V' c). \<exists>ab \<in> set sp. fst ab \<le> q \<and> q \<le> snd ab"
    using I sub unfolding INV_def by blast
  have c5: "\<forall>ab \<in> set sp. \<forall>q \<in> {fst ab..snd ab}.
        top t q \<in> set H' \<longrightarrow> (q \<in> set (V' (top t q)) \<longleftrightarrow> rowlive t H' ab)"
  proof (intro ballI impI)
    fix ab q assume ab: "ab \<in> set sp" and q: "q \<in> {fst ab..snd ab}" and tq: "top t q \<in> set H'"
    from ab obtain r where r: "r < length sp" "ab = sp ! r" by (auto simp: in_set_conv_nth)
    note row = static_row [OF st r(1)]
    have tops: "top t j = top s j" if "fst ab \<le> j" "j \<le> snd ab" for j
      using rowok_valid [OF row, of j] that frame_top [OF F, of j] by (simp add: tm r(2))
    have qr: "fst (sp ! r) \<le> q" "q \<le> snd (sp ! r)" using q r(2) by simp_all
    have c: "top s q \<in> set H" "top s q \<noteq> i" using tq tops [of q] q setH' by auto
    have A: "q \<in> set (V (top s q)) \<longleftrightarrow> rowlive s H ab"
      using INV_live [OF I r(1) qr c(1)] by (simp add: r(2))
    have L: "rowlive t H' ab \<longleftrightarrow> rowlive s H ab \<and> (\<forall>j \<in> {fst ab..snd ab}. top s j \<noteq> i)"
      using tops setH' by (auto simp: rowlive_def)
    have M: "q \<in> set (V' (top s q)) \<longleftrightarrow> q \<in> set (V (top s q)) \<and> q \<notin> set hid"
      by (auto simp: V'_def Vdel_def)
    have "q \<in> set (V' (top s q)) \<longleftrightarrow> rowlive t H' ab"
    proof
      assume "q \<in> set (V' (top s q))"
      then have qV: "q \<in> set (V (top s q))" and qh: "q \<notin> set hid" using M by simp_all
      then have live: "rowlive s H ab" using A by simp
      have "top s j \<noteq> i" if j: "j \<in> {fst ab..snd ab}" for j
      proof
        assume ji: "top s j = i"
        have jr: "fst (sp ! r) \<le> j" "j \<le> snd (sp ! r)" using j r(2) by simp_all
        have "j \<in> set (V i)" using INV_live [OF I r(1) jr] live i ji by (simp add: r(2))
        moreover have "q \<in> set (othp sp j)" using othp_row(2) [OF st r(1) jr] qr ji c(2) by auto
        ultimately have "q \<in> set hid" by (auto simp: hid_def hidden_mem)
        with qh show False by simp
      qed
      with live show "rowlive t H' ab" using L by simp
    next
      assume "rowlive t H' ab"
      then have live: "rowlive s H ab" and ni: "\<forall>j \<in> {fst ab..snd ab}. top s j \<noteq> i"
        using L by simp_all
      have "q \<notin> set hid"
      proof
        assume "q \<in> set hid"
        then obtain p where p: "p \<in> set (V i)" "q \<in> set (othp sp p)"
          by (auto simp: hid_def hidden_mem)
        from INV_row [OF I p(1)] obtain r' where r': "r' < length sp" "fst (sp ! r') \<le> p" "p \<le> snd (sp ! r')" .
        have "fst (sp ! r') \<le> q" "q \<le> snd (sp ! r')" using othp_row(2) [OF st r'] p(2) by auto
        from span_unique [OF st r'(1) r(1) this qr] have "r' = r" .
        then have "p \<in> {fst ab..snd ab}" using r' r(2) by simp
        moreover have "top s p = i" by (rule RINGS_elem(3) [OF R i1 iN p(1)])
        ultimately show False using ni by auto
      qed
      with live A M show "q \<in> set (V' (top s q))" by simp
    qed
    then show "q \<in> set (V' (top t q)) \<longleftrightarrow> rowlive t H' ab" using tops [of q] q by simp
  qed
  show "INV (covS sp (V i) i s) strs sp (remove1 i H) (Vdel (set (hidden sp (V i))) V)"
    unfolding INV_def t_def [symmetric] H'_def [symmetric] hid_def [symmetric] V'_def [symmetric]
    using stt Rt ht c4 c5 by blast
qed

section \<open>The call counter plays no part\<close>






lemma INV_ncount: "INV (s\<lparr>ncount := m\<rparr>) strs sp H V = INV s strs sp H V"
  by (simp add: INV_def static_def rowok_def lastindex_def RINGS_def vring_def hring_def
      rowlive_def ncount_funs)

section \<open>Appending a node\<close>

lemma push_simps [simp]:
  "headers (push_node s n) = headers s" "length (nodes (push_node s n)) = Suc (length (nodes s))"
  "nrows (push_node s n) = nrows s" "ncount (push_node s n) = ncount s"
  "nitems (push_node s n) = nitems s" "hvalid (push_node s n) j = hvalid s j"
  "lastindex (push_node s n) = int (length (nodes s))"
  by (simp_all add: push_node_def nitems_def hvalid_def lastindex_def)

lemma push_valid: "valid (push_node s n) j \<longleftrightarrow> valid s j \<or> j = int (length (nodes s))"
  by (auto simp: push_node_def valid_def)

lemma push_old:
  assumes "valid s j"
  shows "top (push_node s n) j = top s j" "ulink (push_node s n) j = ulink s j"
    "dlink (push_node s n) j = dlink s j" "len (push_node s n) j = len s j"
proof -
  have "nat j < length (nodes s)" using assms unfolding valid_def by linarith
  then show "top (push_node s n) j = top s j" "ulink (push_node s n) j = ulink s j"
    "dlink (push_node s n) j = dlink s j" "len (push_node s n) j = len s j"
    by (simp_all add: push_node_def top_def ulink_def dlink_def len_def nth_append)
qed

lemma push_new:
  "top (push_node s n) (int (length (nodes s))) = data n"
  "ulink (push_node s n) (int (length (nodes s))) = prev n"
  "dlink (push_node s n) (int (length (nodes s))) = nxt n"
  by (simp_all add: push_node_def top_def ulink_def dlink_def)

lemma app_fields:
  assumes v: "valid s item" "valid s (ulink s item)"
  defines "L \<equiv> int (length (nodes s))"
  shows "headers (app item s) = headers s" "length (nodes (app item s)) = Suc (length (nodes s))"
    and "nrows (app item s) = nrows s" "ncount (app item s) = ncount s"
    and "top (app item s) L = item" "ulink (app item s) L = ulink s item" "dlink (app item s) L = item"
    and "\<And>j. valid s j \<Longrightarrow> top (app item s) j = (if j = item then top s j + 1 else top s j)"
    and "\<And>j. valid s j \<Longrightarrow> ulink (app item s) j = (if j = item then L else ulink s j)"
    and "\<And>j. valid s j \<Longrightarrow> dlink (app item s) j = (if j = ulink s item then L else dlink s j)"
proof -
  define n where "n = Node item (ulink s item) item"
  define s1 where "s1 = push_node s n"
  define s2 where "s2 = set_dlink s1 (ulink s item) L"
  define s3 where "s3 = set_ulink s2 item L"
  have L1: "lastindex s1 = L" by (simp add: s1_def L_def)
  have u1: "ulink s1 L = ulink s item" by (simp add: s1_def L_def push_new n_def)
  have v1: "valid s1 L" "valid s1 item" "valid s1 (ulink s item)"
    using v by (simp_all add: s1_def push_valid L_def)
  have ne: "item \<noteq> L" "ulink s item \<noteq> L" using v by (auto simp: valid_def L_def)
  have d2: "dlink s2 L = item"
    using v1 ne by (simp add: s2_def s1_def push_new L_def n_def)
  have e: "app item s = set_len s3 item (len s3 item + 1)"
    unfolding app_def Let_def n_def [symmetric] s1_def [symmetric] L1 u1
        s2_def [symmetric] d2 s3_def [symmetric] ..
  have v3: "valid s3 L" "valid s3 item" "valid s2 L" "valid s2 item"
    using v1 by (simp_all add: s3_def s2_def)
  show "headers (app item s) = headers s" "length (nodes (app item s)) = Suc (length (nodes s))"
    "nrows (app item s) = nrows s" "ncount (app item s) = ncount s"
    by (simp_all add: e s3_def s2_def s1_def)
  show "top (app item s) L = item"
    using v3 ne by (simp add: e s3_def s2_def s1_def push_new L_def n_def)
  show "ulink (app item s) L = ulink s item"
    using v3 ne by (simp add: e s3_def s2_def s1_def push_new L_def n_def)
  show "dlink (app item s) L = item"
    using d2 by (simp add: e s3_def)
  fix j assume j: "valid s j"
  then have j1: "valid s1 j" "valid s2 j" "valid s3 j" by (simp_all add: s3_def s2_def s1_def push_valid)
  show "top (app item s) j = (if j = item then top s j + 1 else top s j)"
    using j j1 v3 v by (simp add: e top_len s3_def s2_def s1_def push_old)
  show "ulink (app item s) j = (if j = item then L else ulink s j)"
    using j j1 v3 by (simp add: e s3_def s2_def s1_def push_old)
  show "dlink (app item s) j = (if j = ulink s item then L else dlink s j)"
    using j j1 v1 by (simp add: e s3_def s2_def s1_def push_old)
qed

lemma app_step:
  assumes R: "RINGS s V" and c: "1 \<le> c" "c \<le> nitems s"
  defines "L \<equiv> int (length (nodes s))"
  shows "RINGS (app c s) (V(c := V c @ [L]))"
    and "oframe s (app c s)"
    and "valid s c \<and> valid s (ulink s c)"
    and "length (nodes (app c s)) = Suc (length (nodes s))"
    and "top (app c s) L = c"
proof -
  define t where "t = app c s"
  define u where "u = ulink s c"
  from R have N0: "0 \<le> nitems s" and Nn: "nitems s < int (length (nodes s))"
    and vr: "\<And>c. 1 \<le> c \<Longrightarrow> c \<le> nitems s \<Longrightarrow> vring s c (V c)"
    by (simp_all add: RINGS_def)
  have cv: "valid s c" using c Nn by (simp add: valid_def)
  from vr [OF c] have dp: "dpath (dlink s) (ulink s) c (V c) c"
    and dist: "distinct (V c)" and lc: "len s c = int (length (V c))"
    and el0: "\<forall>x \<in> set (V c). nitems s < x \<and> valid s x \<and> top s x = c"
    unfolding vring_def by blast+
  have el: "\<And>x. x \<in> set (V c) \<Longrightarrow> nitems s < x \<and> valid s x \<and> top s x = c"
    using el0 by blast
  have ul: "u = last (c # V c)" using dpath_last [OF dp] by (simp add: u_def)
  have "last (c # V c) \<in> set (c # V c)" by (rule last_in_set) simp
  then have uin: "u = c \<or> u \<in> set (V c)" by (simp add: ul)
  have uv: "valid s u" using uin cv el by auto
  have ucol: "u \<le> nitems s \<and> u = c \<or> nitems s < u \<and> top s u = c" using uin c el by auto
  note F = app_fields [OF cv uv [unfolded u_def], folded L_def t_def u_def]
  show "valid s c \<and> valid s (ulink s c)" using cv uv by (simp add: u_def)
  show "length (nodes (app c s)) = Suc (length (nodes s))" using F(2) by (simp add: t_def)
  show "top (app c s) L = c" using F(5) by (simp add: t_def)
  have Nt: "nitems t = nitems s" using F(1) by (simp add: nitems_def)
  have vt: "\<And>j. valid s j \<Longrightarrow> valid t j" using F(2) by (simp add: valid_def)
  have Lv: "valid t L" "\<not> valid s L" using F(2) by (simp_all add: valid_def L_def)
  have topN: "\<And>j. valid s j \<Longrightarrow> nitems s < j \<Longrightarrow> top t j = top s j"
    using F(8) c by auto
  show "oframe s (app c s)"
    unfolding oframe_def t_def [symmetric]
  proof (intro conjI allI impI)
    fix j assume j: "valid s j \<and> nitems s < j"
    then show "top t j = top s j" using topN by simp
    assume "top s j \<le> 0"
    with j c ucol have "j \<noteq> u" "j \<noteq> c" by auto
    with j F(9,10) show "ulink t j = ulink s j" "dlink t j = dlink s j" by auto
  qed (use F in simp_all)
  show "RINGS (app c s) (V(c := V c @ [L]))"
    unfolding RINGS_def t_def [symmetric]
  proof (intro conjI allI impI)
    fix c' assume c': "1 \<le> c' \<and> c' \<le> nitems t"
    then have c'1: "1 \<le> c'" and c'N: "c' \<le> nitems s" by (simp_all add: Nt)
    have c'v: "valid s c'" using c'1 c'N Nn by (simp add: valid_def)
    show "vring t c' ((V(c := V c @ [L])) c')"
    proof (cases "c' = c")
      case True
      have "dpath (dlink t) (ulink t) c (V c) L"
      proof (rule dpath_retarget [OF dp])
        show "distinct (c # V c)" using dist el c by force
        show "dlink t (last (c # V c)) = L"
          unfolding ul [symmetric] using F(10) [OF uv] by simp
        show "ulink t L = last (c # V c)"
          unfolding ul [symmetric] using F(6) by simp
        show "\<forall>x \<in> set (c # V c). x \<noteq> last (c # V c) \<longrightarrow> dlink t x = dlink s x"
          unfolding ul [symmetric] using F(10) cv el by auto
        show "\<forall>x \<in> set (V c). ulink t x = ulink s x"
          using F(9) el c by force
      qed
      moreover have "dlink t L = c" "ulink t c = L" using F(7) F(9) [OF cv] by simp_all
      ultimately have "dpath (dlink t) (ulink t) c (V c @ [L]) c"
        by (simp add: dpath_append)
      moreover have "distinct (V c @ [L])" using dist el Lv by auto
      moreover have "len t c = int (length (V c @ [L]))"
        using F(8) [OF cv] lc by (simp add: top_len)
      moreover have "\<forall>x \<in> set (V c @ [L]). nitems t < x \<and> valid t x \<and> top t x = c"
        using el topN vt Lv Nn F(5) by (auto simp: Nt L_def)
      ultimately show ?thesis by (simp add: vring_def True)
    next
      case False
      from vr [OF c'1 c'N] have dp': "dpath (dlink s) (ulink s) c' (V c') c'"
        and dist': "distinct (V c')" and lc': "len s c' = int (length (V c'))"
        and el0': "\<forall>x \<in> set (V c'). nitems s < x \<and> valid s x \<and> top s x = c'"
        unfolding vring_def by blast+
      have el': "\<And>x. x \<in> set (V c') \<Longrightarrow> nitems s < x \<and> valid s x \<and> top s x = c'"
        using el0' by blast
      have n1: "\<forall>x \<in> set (c' # V c'). dlink t x = dlink s x"
      proof
        fix x assume x: "x \<in> set (c' # V c')"
        then have "valid s x" using c'v el' by auto
        moreover have "x \<noteq> u" using x ucol el' [of x] False c'N by auto
        ultimately show "dlink t x = dlink s x" using F(10) by simp
      qed
      have n2: "\<forall>x \<in> set (V c' @ [c']). ulink t x = ulink s x"
      proof
        fix x assume x: "x \<in> set (V c' @ [c'])"
        then have "valid s x" using c'v el' by auto
        moreover have "x \<noteq> c" using x el' [of x] False c by auto
        ultimately show "ulink t x = ulink s x" using F(9) by simp
      qed
      have "dpath (dlink t) (ulink t) c' (V c') c'"
        using dp' dpath_cong [OF n1 n2] by simp
      moreover have "len t c' = int (length (V c'))"
        using F(8) [OF c'v] lc' False by (simp add: top_len)
      moreover have "\<forall>x \<in> set (V c'). nitems t < x \<and> valid t x \<and> top t x = c'"
        using el' topN vt by (auto simp: Nt)
      ultimately show ?thesis using dist' False by (simp add: vring_def)
    qed
  qed (use N0 Nn F(2) in \<open>simp_all add: Nt\<close>)
qed

section \<open>Appending the nodes of a row\<close>

lemma oframe_refl: "oframe s s"
  by (simp add: oframe_def)

lemma oframe_same:
  assumes "oframe s t"
  shows "nitems t = nitems s" "valid s j \<Longrightarrow> valid t j" "hvalid t j = hvalid s j"
    "rlink t = rlink s" "llink t = llink s"
  using assms hlink_eq [of t s]
  by (simp_all add: oframe_def nitems_def valid_def hvalid_def)

lemma oframe_top: "oframe s t \<Longrightarrow> valid s j \<Longrightarrow> nitems s < j \<Longrightarrow> top t j = top s j"
  unfolding oframe_def by blast

lemma oframe_spacer:
  "oframe s t \<Longrightarrow> valid s j \<Longrightarrow> nitems s < j \<Longrightarrow> top s j \<le> 0 \<Longrightarrow>
     ulink t j = ulink s j \<and> dlink t j = dlink s j"
  unfolding oframe_def by blast

lemma oframe_trans:
  assumes st: "oframe s t" and tu: "oframe t u"
  shows "oframe s u"
  unfolding oframe_def
proof (intro conjI allI impI)
  fix j assume j: "valid s j \<and> nitems s < j"
  then have jt: "valid t j" "nitems t < j" using oframe_same [OF st] by simp_all
  have a: "top t j = top s j" using oframe_top [OF st] j by simp
  have b: "top u j = top t j" using oframe_top [OF tu] jt by simp
  show "top u j = top s j" using a b by simp
  assume sp: "top s j \<le> 0"
  have c: "ulink t j = ulink s j \<and> dlink t j = dlink s j" using oframe_spacer [OF st] j sp by simp
  have d: "ulink u j = ulink t j \<and> dlink u j = dlink t j" using oframe_spacer [OF tu] jt sp a by simp
  show "ulink u j = ulink s j" "dlink u j = dlink s j" using c d by simp_all
qed (use st tu in \<open>simp_all add: oframe_def\<close>)

lemma rowok_cong:
  assumes r: "rowok s str r a b"
    and n: "nitems t = nitems s" "length (nodes s) \<le> length (nodes t)"
    and T: "\<And>j. a - 1 \<le> j \<Longrightarrow> j \<le> b + 1 \<Longrightarrow> top t j = top s j"
    and u: "ulink t (b + 1) = ulink s (b + 1)" and d: "dlink t (a - 1) = dlink s (a - 1)"
  shows "rowok t str r a b"
proof -
  have "map (top t) [a..b] = map (top s) [a..b]" using T by simp
  also have "\<dots> = ones str" using r unfolding rowok_def by blast
  finally have m: "map (top t) [a..b] = ones str" .
  have t1: "top t (b + 1) = - (r + 1)" using T [of "b + 1"] r by (simp add: rowok_def)
  have t2: "top t (a - 1) \<le> 0" using T [of "a - 1"] r by (simp add: rowok_def)
  have u': "ulink t (b + 1) = a" using u r by (simp add: rowok_def)
  have d': "dlink t (a - 1) = b" using d r by (simp add: rowok_def)
  have b: "nitems s + 1 < a" "a \<le> b" "b + 1 < int (length (nodes t))"
    "0 \<le> r" "int (length str) \<le> nitems s"
    using r n(2) by (simp_all add: rowok_def)
  show ?thesis unfolding rowok_def n(1) using m t1 t2 u' d' b by blast
qed

lemma rowok_oframe:
  assumes r: "rowok s str r a b" and f: "oframe s t"
  shows "rowok t str r a b"
proof (rule rowok_cong [OF r])
  show "nitems t = nitems s" by (rule oframe_same(1) [OF f])
  show "length (nodes s) \<le> length (nodes t)" using f by (simp add: oframe_def)
  show "top t j = top s j" if "a - 1 \<le> j" "j \<le> b + 1" for j
    using rowok_valid [OF r that] oframe_top [OF f] by simp
  show "ulink t (b + 1) = ulink s (b + 1)"
    using rowok_valid [OF r, of "b + 1"] oframe_spacer [OF f, of "b + 1"] r by (simp add: rowok_def)
  show "dlink t (a - 1) = dlink s (a - 1)"
    using rowok_valid [OF r, of "a - 1"] oframe_spacer [OF f, of "a - 1"] r by (simp add: rowok_def)
qed

lemma app_fold:
  "RINGS s V \<Longrightarrow> \<forall>x \<in> set its. 1 \<le> x \<and> x \<le> nitems s \<Longrightarrow>
     RINGS (fold app its s) (Vapp V (int (length (nodes s))) its) \<and>
     oframe s (fold app its s) \<and>
     length (nodes (fold app its s)) = length (nodes s) + length its \<and>
     (\<forall>j < length its. top (fold app its s) (int (length (nodes s)) + int j) = its ! j)"
proof (induction its arbitrary: s V)
  case Nil
  then show ?case by (simp add: oframe_refl)
next
  case (Cons x xs)
  define L where "L = int (length (nodes s))"
  define t where "t = app x s"
  from Cons.prems(2) have x: "1 \<le> x" "x \<le> nitems s" by simp_all
  note S = app_step [OF Cons.prems(1) x, folded L_def t_def]
  have Nt: "nitems t = nitems s" by (rule oframe_same(1) [OF S(2)])
  have Lt: "int (length (nodes t)) = L + 1" using S(4) by (simp add: L_def)
  have "\<forall>y \<in> set xs. 1 \<le> y \<and> y \<le> nitems t" using Cons.prems(2) Nt by simp
  from Cons.IH [OF S(1) this, unfolded Lt]
  have 1: "RINGS (fold app xs t) (Vapp (V(x := V x @ [L])) (L + 1) xs)"
    and 2: "oframe t (fold app xs t)"
    and 3: "length (nodes (fold app xs t)) = length (nodes t) + length xs"
    and 4: "\<forall>j < length xs. top (fold app xs t) (L + 1 + int j) = xs ! j" by blast+
  have NL: "nitems s < L" using Cons.prems(1) by (simp add: RINGS_def L_def)
  have "valid t L" using S(4) by (simp add: valid_def L_def)
  then have 5: "top (fold app xs t) L = x" using oframe_top [OF 2, of L] NL Nt S(5) by simp
  have "top (fold app (x # xs) s) (L + int j) = (x # xs) ! j" if "j < length (x # xs)" for j
  proof (cases j)
    case 0
    then show ?thesis using 5 by (simp add: t_def)
  next
    case (Suc k)
    then have "k < length xs" using that by simp
    with 4 have "top (fold app xs t) (L + 1 + int k) = xs ! k" by simp
    then show ?thesis using Suc by (simp add: t_def add.assoc)
  qed
  then show ?case
    using 1 3 S(4) oframe_trans [OF S(2) 2] by (simp add: t_def L_def)
qed

lemma Vapp_mem:
  "q \<in> set (Vapp V L its c) \<longleftrightarrow>
     q \<in> set (V c) \<or> (L \<le> q \<and> q < L + int (length its) \<and> its ! nat (q - L) = c)"
proof (induction its arbitrary: V L)
  case Nil
  then show ?case by auto
next
  case (Cons x xs)
  have a: "nat (q - L) = Suc (nat (q - (L + 1)))" if "L + 1 \<le> q" using that by simp
  have "q \<in> set (Vapp V L (x # xs) c) \<longleftrightarrow> q \<in> set (Vapp (V(x := V x @ [L])) (L + 1) xs c)"
    by simp
  also have "\<dots> \<longleftrightarrow> q \<in> set ((V(x := V x @ [L])) c) \<or>
      (L + 1 \<le> q \<and> q < L + 1 + int (length xs) \<and> xs ! nat (q - (L + 1)) = c)"
    by (rule Cons.IH)
  also have "\<dots> \<longleftrightarrow> q \<in> set (V c) \<or>
      (L \<le> q \<and> q < L + int (length (x # xs)) \<and> (x # xs) ! nat (q - L) = c)"
  proof (cases "q = L")
    case True
    then show ?thesis by auto
  next
    case False
    then show ?thesis using a by auto
  qed
  finally show ?case .
qed

lemma addrow_loop_one:
  assumes "valid s (i + 1)" "valid s (ulink s (i + 1))"
  shows "addrow_loop (CHR ''1'' # cs) i s = addrow_loop cs (i + 1) (app (i + 1) s)"
proof -
  have "ulink s (i + 1) \<noteq> int (length (nodes s))" "i + 1 \<noteq> int (length (nodes s))"
    using assms by (auto simp: valid_def)
  then show ?thesis
    using assms by (simp add: Let_def app_def push_valid push_new)
qed

lemma addrow_loop_app:
  "RINGS s V \<Longrightarrow> 0 \<le> i \<Longrightarrow> i + int (length cs) \<le> nitems s \<Longrightarrow>
     addrow_loop cs i s = Inr (fold app (ones_from i cs) s)"
proof (induction cs arbitrary: i s V)
  case Nil
  then show ?case by simp
next
  case (Cons c cs)
  show ?case
  proof (cases "c = CHR ''1''")
    case True
    have x: "1 \<le> i + 1" "i + 1 \<le> nitems s" using Cons.prems by simp_all
    note S = app_step [OF Cons.prems(1) x]
    have N: "nitems (app (i + 1) s) = nitems s" by (rule oframe_same(1) [OF S(2)])
    have "addrow_loop (c # cs) i s = addrow_loop cs (i + 1) (app (i + 1) s)"
      using S(3) True by (simp only: addrow_loop_one)
    also have "\<dots> = Inr (fold app (ones_from (i + 1) cs) (app (i + 1) s))"
      using Cons.prems N by (intro Cons.IH [OF S(1)]) simp_all
    finally show ?thesis using True by simp
  next
    case False
    then show ?thesis using Cons.prems Cons.IH [of s V "i + 1"] by simp
  qed
qed

section \<open>Closing a row\<close>

lemma nrows_upd [simp]:
  "valid (s\<lparr>nrows := m\<rparr>) j = valid s j" "hvalid (s\<lparr>nrows := m\<rparr>) j = hvalid s j"
  "nitems (s\<lparr>nrows := m\<rparr>) = nitems s" "lastindex (s\<lparr>nrows := m\<rparr>) = lastindex s"
  "top (s\<lparr>nrows := m\<rparr>) j = top s j" "len (s\<lparr>nrows := m\<rparr>) j = len s j"
  "ulink (s\<lparr>nrows := m\<rparr>) j = ulink s j" "dlink (s\<lparr>nrows := m\<rparr>) j = dlink s j"
  by (simp_all add: valid_def hvalid_def nitems_def lastindex_def top_def len_def ulink_def dlink_def)

lemma close_fields:
  fixes n :: Node and e z :: int and s1 :: DLink
  assumes v: "valid s1 z"
  defines "t \<equiv> (set_dlink (push_node s1 n) z e)\<lparr>nrows := nrows (set_dlink (push_node s1 n) z e) + 1\<rparr>"
  defines "E \<equiv> int (length (nodes s1))"
  shows "headers t = headers s1" "length (nodes t) = Suc (length (nodes s1))"
    and "top t E = data n" "ulink t E = prev n" "dlink t E = nxt n"
    and "\<And>j. valid s1 j \<Longrightarrow> top t j = top s1 j"
    and "\<And>j. valid s1 j \<Longrightarrow> ulink t j = ulink s1 j"
    and "\<And>j. valid s1 j \<Longrightarrow> dlink t j = (if j = z then e else dlink s1 j)"
proof -
  have v2: "valid (push_node s1 n) z" "valid (push_node s1 n) E" using v by (simp_all add: push_valid E_def)
  have ne: "z \<noteq> E" using v by (auto simp: valid_def E_def)
  show "headers t = headers s1" "length (nodes t) = Suc (length (nodes s1))"
    by (simp_all add: t_def)
  show "top t E = data n" "ulink t E = prev n"
    by (simp_all add: t_def E_def push_new)
  show "dlink t E = nxt n" using v2 ne by (simp add: t_def) (simp add: E_def push_new)
  fix j assume j: "valid s1 j"
  then have j2: "valid (push_node s1 n) j" by (simp add: push_valid)
  show "top t j = top s1 j" "ulink t j = ulink s1 j" using j by (simp_all add: t_def push_old)
  show "dlink t j = (if j = z then e else dlink s1 j)"
    using j j2 v2 by (simp add: t_def push_old)
qed

lemma ones_empty: "ones str = [] \<longleftrightarrow> CHR ''1'' \<notin> set str"
proof -
  have "ones_from i cs = [] \<longleftrightarrow> CHR ''1'' \<notin> set cs" for i cs
    by (induction cs arbitrary: i) auto
  then show ?thesis by (simp add: ones_def)
qed

lemma static_last:
  assumes "static s strs sp" "RINGS s V"
  shows "valid s (lastindex s)" "nitems s + 1 \<le> lastindex s" "top s (lastindex s) = - int (length sp)"
    "lastindex s = int (length (nodes s)) - 1"
proof -
  have li: "lastindex s = (if sp = [] then nitems s + 1 else snd (last sp) + 1)"
    using assms(1) unfolding static_def by blast
  show "top s (lastindex s) = - int (length sp)" using assms(1) unfolding static_def by blast
  show "lastindex s = int (length (nodes s)) - 1" by (simp add: lastindex_def)
  show "valid s (lastindex s)" using assms(2) by (auto simp: RINGS_def valid_def lastindex_def)
  show "nitems s + 1 \<le> lastindex s"
  proof (cases "sp = []")
    case True
    then show ?thesis using li by simp
  next
    case False
    then have "length sp - 1 < length sp" by simp
    from static_row [OF assms(1) this] False
    have "rowok s (strs ! (length sp - 1)) (int (length sp - 1)) (fst (last sp)) (snd (last sp))"
      by (simp add: last_conv_nth)
    then show ?thesis using li False by (simp add: rowok_def)
  qed
qed

lemma map_upto_nth:
  assumes "\<And>j. j < length xs \<Longrightarrow> f (L + int j) = xs ! j"
  shows "map f [L..L + int (length xs) - 1] = xs"
proof (rule nth_equalityI)
  show "length (map f [L..L + int (length xs) - 1]) = length xs" by simp
  fix i assume "i < length (map f [L..L + int (length xs) - 1])"
  then have i: "i < length xs" by simp
  then have "[L..L + int (length xs) - 1] ! i = L + int i" by (intro nth_upto) simp
  then show "map f [L..L + int (length xs) - 1] ! i = xs ! i" using i assms by simp
qed

lemma RINGS_cong:
  assumes R: "RINGS s V" and n: "nitems t = nitems s" "length (nodes s) \<le> length (nodes t)"
    and e: "\<And>j. valid s j \<Longrightarrow> j \<le> nitems s \<or> 1 \<le> top s j \<Longrightarrow>
      top t j = top s j \<and> ulink t j = ulink s j \<and> dlink t j = dlink s j"
  shows "RINGS t V"
  unfolding RINGS_def n(1)
proof (intro conjI allI impI)
  from R have N0: "0 \<le> nitems s" and Nn: "nitems s < int (length (nodes s))"
    and vr: "\<And>c. 1 \<le> c \<Longrightarrow> c \<le> nitems s \<Longrightarrow> vring s c (V c)"
    by (simp_all add: RINGS_def)
  show "0 \<le> nitems s" by (rule N0)
  show "nitems s < int (length (nodes t))" using Nn n(2) by simp
  fix c assume c: "1 \<le> c \<and> c \<le> nitems s"
  then have cv: "valid s c" using Nn by (simp add: valid_def)
  from vr c have dp: "dpath (dlink s) (ulink s) c (V c) c"
    and dist: "distinct (V c)" and lc: "len s c = int (length (V c))"
    and el0: "\<forall>x \<in> set (V c). nitems s < x \<and> valid s x \<and> top s x = c"
    unfolding vring_def by blast+
  have ee: "top t x = top s x \<and> ulink t x = ulink s x \<and> dlink t x = dlink s x"
    if "x \<in> set (c # V c)" for x
    using that e [of x] cv c el0 by auto
  have n1: "\<forall>x \<in> set (c # V c). dlink t x = dlink s x" using ee by blast
  have n2: "\<forall>x \<in> set (V c @ [c]). ulink t x = ulink s x" using ee by auto
  have "dpath (dlink t) (ulink t) c (V c) c" using dp dpath_cong [OF n1 n2] by simp
  moreover have "len t c = int (length (V c))" using ee [of c] lc by (simp add: top_len)
  moreover have "\<forall>x \<in> set (V c). nitems s < x \<and> valid t x \<and> top t x = c"
    using el0 ee n(2) by (auto simp: valid_def)
  ultimately show "vring t c (V c)" using dist by (simp add: vring_def n(1))
qed

lemma Vapp_length: "length (Vapp V L its c) = length (V c) + count_list its c"
  by (induction its arbitrary: V L) auto

lemma BI_parts:
  assumes "BI s strs sp V"
  shows "static s strs sp" "RINGS s V" "hring s [1..nitems s]"
    "\<And>c q. q \<in> set (V c) \<Longrightarrow> \<exists>ab \<in> set sp. fst ab \<le> q \<and> q \<le> snd ab"
    "\<And>ab q. ab \<in> set sp \<Longrightarrow> fst ab \<le> q \<Longrightarrow> q \<le> snd ab \<Longrightarrow> q \<in> set (V (top s q))"
  using assms unfolding BI_def by auto

lemma addrow_ok:
  assumes B: "BI s strs sp V" and len: "int (length str) \<le> nitems s" and one: "ones str \<noteq> []"
    and big: "int (length str) \<le> 2147483647"
  defines "L \<equiv> int (length (nodes s))" and "k \<equiv> int (length (ones str))"
  shows "\<exists>s'. addrow str s = Inr s' \<and>
    BI s' (strs @ [str]) (sp @ [(L, L + k - 1)]) (Vapp V L (ones str)) \<and>
    headers s' = headers s \<and> length (nodes s') = length (nodes s) + length (ones str) + 1 \<and>
    nrows s' = nrows s + 1 \<and> ncount s' = ncount s"
proof -
  note st = BI_parts(1) [OF B] and R = BI_parts(2) [OF B] and hr = BI_parts(3) [OF B]
    and c4 = BI_parts(4) [OF B] and c5 = BI_parts(5) [OF B]
  define its where "its = ones str"
  define s1 where "s1 = fold app its s"
  define V1 where "V1 = Vapp V L its"
  define z where "z = L - 1"
  have items: "\<forall>x \<in> set its. 1 \<le> x \<and> x \<le> nitems s"
    using ones_bounds [of _ str] len by (fastforce simp: its_def)
  from app_fold [OF R items, folded s1_def L_def V1_def]
  have R1: "RINGS s1 V1" and F: "oframe s s1"
    and l1: "length (nodes s1) = length (nodes s) + length its"
    and T1: "\<And>j. j < length its \<Longrightarrow> top s1 (L + int j) = its ! j" by blast+
  have loop: "addrow_loop str 0 s = Inr s1"
    using addrow_loop_app [OF R, of 0 str] len by (simp add: ones_def s1_def its_def)
  note SL = static_last [OF st R]
  have zl: "lastindex s = z" by (simp add: z_def L_def lastindex_def)
  have zv: "valid s z" and zN: "nitems s + 1 \<le> z" and zt: "top s z = - int (length sp)"
    using SL by (simp_all add: zl)
  have k1: "1 \<le> k" using one by (cases "ones str") (simp_all add: k_def)
  have kl: "k = int (length its)" by (simp add: k_def its_def)
  have E: "int (length (nodes s1)) = L + k" using l1 by (simp add: L_def kl)
  have N1: "nitems s1 = nitems s" by (rule oframe_same(1) [OF F])
  have zv1: "valid s1 z" by (rule oframe_same(2) [OF F zv])
  have zt1: "top s1 z = - int (length sp)" using oframe_top [OF F zv] zN zt by simp
  define n where "n = Node (len s1 z - 1) (z + 1) 0"
  define s' where "s' = (set_dlink (push_node s1 n) z (L + k - 1))
    \<lparr>nrows := nrows (set_dlink (push_node s1 n) z (L + k - 1)) + 1\<rparr>"
  have l1': "lastindex s1 = L + k - 1" using E by (simp add: lastindex_def)
  have res: "addrow str s = Inr s'"
    unfolding addrow_def
    using len big zv zt k1 by (simp add: zl isspacer_def loop l1' Let_def n_def s'_def z_def)
  note CF = close_fields [OF zv1, where n = n and e = "L + k - 1", folded s'_def, unfolded E]
  have Ns: "nitems s' = nitems s" using CF(1) F by (simp add: nitems_def oframe_def)
  have ls: "int (length (nodes s')) = L + k + 1" using CF(2) E by simp
  have v1: "valid s1 j" if "0 \<le> j" "j < L + k" for j using that E by (simp add: valid_def)
  have vs: "valid s j" if "0 \<le> j" "j < L" for j using that by (simp add: valid_def L_def)
  have N0: "0 \<le> nitems s" using R by (simp add: RINGS_def)
  have topnew: "top s' (L + int j) = its ! j" if "j < length its" for j
    using CF(6) [OF v1, of "L + int j"] T1 [OF that] that N0 zN by (simp add: kl z_def)
  have topold: "top s' j = top s j" if "nitems s < j" "j < L" for j
    using CF(6) [OF v1, of j] oframe_top [OF F vs, of j] that N0 k1 by simp
  have rowold: "rowok s' (strs ! r) (int r) (fst (sp ! r)) (snd (sp ! r))" if r: "r < length sp" for r
  proof -
    define a b where "a = fst (sp ! r)" and "b = snd (sp ! r)"
    note row = static_row [OF st r, folded a_def b_def]
    have ab: "nitems s + 1 < a" "a \<le> b" "b + 1 < L" using row by (simp_all add: rowok_def L_def)
    show ?thesis
      unfolding a_def [symmetric] b_def [symmetric]
    proof (rule rowok_cong [OF row])
      show "nitems s' = nitems s" by (rule Ns)
      show "length (nodes s) \<le> length (nodes s')" using CF(2) l1 by simp
      show "top s' j = top s j" if "a - 1 \<le> j" "j \<le> b + 1" for j
        using that ab by (intro topold) simp_all
      have "valid s (b + 1)" "nitems s < b + 1" "top s (b + 1) \<le> 0"
        using rowok_valid [OF row, of "b + 1"] row by (simp_all add: rowok_def)
      then have "ulink s1 (b + 1) = ulink s (b + 1)" using oframe_spacer [OF F] by simp
      then show "ulink s' (b + 1) = ulink s (b + 1)"
        using CF(7) [OF v1, of "b + 1"] ab N0 k1 by simp
      have "valid s (a - 1)" "nitems s < a - 1" "top s (a - 1) \<le> 0"
        using rowok_valid [OF row, of "a - 1"] row by (simp_all add: rowok_def)
      then have "dlink s1 (a - 1) = dlink s (a - 1)" using oframe_spacer [OF F] by simp
      then show "dlink s' (a - 1) = dlink s (a - 1)"
        using CF(8) [OF v1, of "a - 1"] ab N0 k1 by (simp add: z_def)
    qed
  qed
  have rownew: "rowok s' str (int (length sp)) L (L + k - 1)"
    unfolding rowok_def
  proof (intro conjI)
    show "nitems s' + 1 < L" using zN by (simp add: Ns z_def)
    show "L \<le> L + k - 1" using k1 by simp
    show "L + k - 1 + 1 < int (length (nodes s'))" using ls by simp
    show "int (length str) \<le> nitems s'" using len by (simp add: Ns)
    show "map (top s') [L..L + k - 1] = ones str"
      using map_upto_nth [of its "top s'" L] topnew by (simp add: kl its_def)
    show "top s' (L + k - 1 + 1) = - (int (length sp) + 1)"
      using CF(3) zt1 by (simp add: n_def top_len)
    show "ulink s' (L + k - 1 + 1) = L" using CF(4) by (simp add: n_def z_def)
    show "top s' (L - 1) \<le> 0" using topold [of "L - 1"] zN zt by (simp add: z_def)
    show "dlink s' (L - 1) = L + k - 1" using CF(8) [OF zv1] by (simp add: z_def)
  qed simp
  have st': "static s' (strs @ [str]) (sp @ [(L, L + k - 1)])"
    unfolding static_def
  proof (intro conjI allI impI)
    show "length (sp @ [(L, L + k - 1)]) = length (strs @ [str])"
      using st by (simp add: static_def)
    show "0 \<le> nitems s'" using N0 Ns by simp
    show "lastindex s' = (if sp @ [(L, L + k - 1)] = [] then nitems s' + 1
        else snd (last (sp @ [(L, L + k - 1)])) + 1)"
      using ls by (simp add: lastindex_def)
    show "top s' (lastindex s') = - int (length (sp @ [(L, L + k - 1)]))"
      using CF(3) zt1 ls by (simp add: lastindex_def n_def top_len)
    fix r assume r: "r < length (sp @ [(L, L + k - 1)])"
    have ll: "length strs = length sp" using st by (simp add: static_def)
    show "rowok s' ((strs @ [str]) ! r) (int r) (fst ((sp @ [(L, L + k - 1)]) ! r))
        (snd ((sp @ [(L, L + k - 1)]) ! r))"
    proof (cases "r < length sp")
      case True
      then show ?thesis using rowold [OF True] ll by (simp add: nth_append)
    next
      case False
      then have "r = length sp" using r by simp
      then show ?thesis using rownew ll by (simp add: nth_append)
    qed
  qed
  have R': "RINGS s' V1"
  proof (rule RINGS_cong [OF R1])
    show "nitems s' = nitems s1" by (simp add: Ns N1)
    show "length (nodes s1) \<le> length (nodes s')" using CF(2) by simp
    fix j assume j: "valid s1 j" and c: "j \<le> nitems s1 \<or> 1 \<le> top s1 j"
    have "j \<noteq> z" using c zN zt1 N1 by auto
    then show "top s' j = top s1 j \<and> ulink s' j = ulink s1 j \<and> dlink s' j = dlink s1 j"
      using CF(6,7,8) [OF j] by simp
  qed
  have hr': "hring s' [1..nitems s']"
    using hr hlink_eq [of s' s] CF(1) F by (simp add: hring_def Ns oframe_def)
  have c4': "\<forall>c. \<forall>q \<in> set (V1 c). \<exists>ab \<in> set (sp @ [(L, L + k - 1)]). fst ab \<le> q \<and> q \<le> snd ab"
  proof (intro allI ballI)
    fix c q assume "q \<in> set (V1 c)"
    then consider "q \<in> set (V c)" | "L \<le> q \<and> q < L + k"
      by (auto simp: V1_def Vapp_mem kl)
    then show "\<exists>ab \<in> set (sp @ [(L, L + k - 1)]). fst ab \<le> q \<and> q \<le> snd ab"
    proof cases
      case 1
      then show ?thesis using c4 by auto
    next
      case 2
      then show ?thesis by auto
    qed
  qed
  have c5': "\<forall>ab \<in> set (sp @ [(L, L + k - 1)]). \<forall>q \<in> {fst ab..snd ab}. q \<in> set (V1 (top s' q))"
  proof (intro ballI)
    fix ab q assume ab: "ab \<in> set (sp @ [(L, L + k - 1)])" and q: "q \<in> {fst ab..snd ab}"
    show "q \<in> set (V1 (top s' q))"
    proof (cases "ab \<in> set sp")
      case True
      then obtain r where r: "r < length sp" "ab = sp ! r" by (auto simp: in_set_conv_nth)
      note row = static_row [OF st r(1)]
      have "nitems s < q" "q < L"
        using rowok_valid [OF row, of q] q row by (simp_all add: r(2) rowok_def L_def)
      then have "top s' q = top s q" by (rule topold)
      moreover have "q \<in> set (V (top s q))" using c5 [OF True] q by simp
      ultimately show ?thesis by (simp add: V1_def Vapp_mem)
    next
      case False
      then have ab': "ab = (L, L + k - 1)" using ab by simp
      then have q': "L \<le> q" "q < L + k" using q by simp_all
      define j where "j = nat (q - L)"
      have j: "j < length its" "q = L + int j" using q' by (simp_all add: j_def kl)
      have "top s' q = its ! j" using topnew [OF j(1)] j(2) by simp
      then show ?thesis using q' by (simp add: V1_def Vapp_mem kl j_def)
    qed
  qed
  have "BI s' (strs @ [str]) (sp @ [(L, L + k - 1)]) V1"
    unfolding BI_def using st' R' hr' c4' c5' by blast
  moreover have "headers s' = headers s" using CF(1) F by (simp add: oframe_def)
  moreover have "length (nodes s') = length (nodes s) + length (ones str) + 1"
    using CF(2) l1 by (simp add: its_def)
  moreover have "nrows s' = nrows s + 1" "ncount s' = ncount s"
    using F by (simp_all add: s'_def oframe_def)
  ultimately show ?thesis using res by (simp add: V1_def its_def)
qed

section \<open>Construction establishes the invariant\<close>

lemma addrow_big: "int (length str) > 2147483647 \<Longrightarrow> addrow str s = Inl Overflow"
  by (simp add: addrow_def)

lemma addrow_fail:
  assumes "RINGS s V" "static s strs sp" "int (length str) \<le> 2147483647"
    and "\<not> int (length str) \<le> nitems s \<or> ones str = []"
  shows "addrow str s = Inl AssertFail"
proof (cases "int (length str) \<le> nitems s")
  case False
  then show ?thesis using assms(3) by (simp add: addrow_def)
next
  case True
  with assms(4) have e: "ones str = []" by simp
  have "ones_from i cs = [] \<Longrightarrow> addrow_loop cs i s = Inr s" for i cs
    by (induction cs arbitrary: i) (auto split: if_splits)
  then have "addrow_loop str 0 s = Inr s" using e by (simp add: ones_def)
  then show ?thesis
    using True assms(3) static_last [OF assms(2,1)] by (simp add: addrow_def Let_def isspacer_def)
qed

lemma nth_map_upto:
  "0 \<le> i \<Longrightarrow> i \<le> n \<Longrightarrow> map f [0..n] ! nat i = f i"
  by (simp add: nth_upto)

lemma init_fields:
  assumes n: "0 \<le> n" "n < 1073741824"
  obtains s where "init n = Inr s" "length (headers s) = nat (n + 1)"
    "length (nodes s) = nat (n + 2)" "nrows s = 0" "ncount s = 0"
    "\<And>i. 0 \<le> i \<Longrightarrow> i \<le> n \<Longrightarrow> name s i = i \<and> llink s i = (i + n) mod (n + 1) \<and>
       rlink s i = (i + 1) mod (n + 1) \<and> top s i = 0 \<and> ulink s i = i \<and> dlink s i = i"
    "top s (n + 1) = 0 \<and> ulink s (n + 1) = 0 \<and> dlink s (n + 1) = 0"
proof -
  define s where "s = \<lparr>headers = map (\<lambda>i. Node i ((i + n) mod (n + 1)) ((i + 1) mod (n + 1))) [0..n],
                nodes = map (\<lambda>i. Node 0 i i) [0..n] @ [Node 0 0 0], nrows = 0, ncount = 0\<rparr>"
  have l: "length [0..n] = nat (n + 1)" using n by simp
  have 1: "init n = Inr s" using n by (simp add: init_def s_def)
  have 2: "length (headers s) = nat (n + 1)" "length (nodes s) = nat (n + 2)"
    "nrows s = 0" "ncount s = 0" using n by (simp_all add: s_def nat_add_distrib)
  have 3: "name s i = i \<and> llink s i = (i + n) mod (n + 1) \<and>
       rlink s i = (i + 1) mod (n + 1) \<and> top s i = 0 \<and> ulink s i = i \<and> dlink s i = i"
    if "0 \<le> i" "i \<le> n" for i
  proof -
    have "nat i < length (map (\<lambda>i. Node 0 i i) [0..n])" using that by simp
    then have "nodes s ! nat i = map (\<lambda>i. Node 0 i i) [0..n] ! nat i"
      by (simp add: s_def nth_append del: length_map length_upto)
    then have "nodes s ! nat i = Node 0 i i" using that by (simp only: nth_map_upto)
    moreover have "headers s ! nat i = Node i ((i + n) mod (n + 1)) ((i + 1) mod (n + 1))"
      using that by (simp add: s_def nth_map_upto del: nth_map)
    ultimately show ?thesis
      by (simp add: name_def llink_def rlink_def top_def ulink_def dlink_def)
  qed
  have "nodes s ! nat (n + 1) = Node 0 0 0"
    using n by (simp add: s_def nth_append)
  then have 4: "top s (n + 1) = 0 \<and> ulink s (n + 1) = 0 \<and> dlink s (n + 1) = 0"
    by (simp add: top_def ulink_def dlink_def)
  show ?thesis using that [OF 1 2 3 4] by blast
qed

lemma dpath_upto:
  "a \<le> b \<Longrightarrow> (\<forall>k. a \<le> k \<and> k < b \<longrightarrow> nx k = k + 1 \<and> pv (k + 1) = k) \<Longrightarrow>
     nx b = e \<Longrightarrow> pv e = b \<Longrightarrow> dpath nx pv a [a + 1..b] e"
proof (induction "nat (b - a)" arbitrary: a)
  case 0
  then have "a = b" by simp
  then show ?case using 0 by simp
next
  case (Suc m)
  then have ab: "a < b" by simp
  then have u: "[a + 1..b] = (a + 1) # [a + 1 + 1..b]" by (simp add: upto_rec1)
  have "dpath nx pv (a + 1) [a + 1 + 1..b] e"
    using Suc.hyps(2) Suc.prems ab by (intro Suc.hyps(1)) auto
  moreover have "nx a = a + 1" "pv (a + 1) = a" using Suc.prems(2) ab by auto
  ultimately show ?case by (simp add: u)
qed

lemma init_BI:
  assumes n: "0 \<le> n" and i: "init n = Inr s"
  shows "BI s [] [] (\<lambda>c. [])" and "nitems s = n"
proof -
  from i have n2: "n < 1073741824" by (simp add: init_def split: if_splits)
  from init_fields [OF n n2] obtain s' where i': "init n = Inr s'"
    and lh': "length (headers s') = nat (n + 1)" and ln': "length (nodes s') = nat (n + 2)"
    and f': "\<And>i. 0 \<le> i \<Longrightarrow> i \<le> n \<Longrightarrow> name s' i = i \<and> llink s' i = (i + n) mod (n + 1) \<and>
       rlink s' i = (i + 1) mod (n + 1) \<and> top s' i = 0 \<and> ulink s' i = i \<and> dlink s' i = i"
    and sp': "top s' (n + 1) = 0 \<and> ulink s' (n + 1) = 0 \<and> dlink s' (n + 1) = 0"
    by blast
  have ss: "s' = s" using i i' by simp
  note lh = lh' [unfolded ss] and ln = ln' [unfolded ss] and f = f' [unfolded ss]
    and sp = sp' [unfolded ss]
  show N: "nitems s = n" using lh n by (simp add: nitems_def)
  have st: "static s [] []"
    using n ln sp by (simp add: static_def N lastindex_def add.commute)
  have R: "RINGS s (\<lambda>c. [])"
    using n ln f by (simp add: RINGS_def N vring_def top_len [symmetric])
  have "dpath (rlink s) (llink s) 0 [0 + 1..n] 0"
  proof (rule dpath_upto [OF n])
    show "\<forall>k. 0 \<le> k \<and> k < n \<longrightarrow> rlink s k = k + 1 \<and> llink s (k + 1) = k"
    proof (intro allI impI)
      fix k assume k: "0 \<le> k \<and> k < n"
      have "(k + 1 + n) mod (n + 1) = k"
      proof -
        have "k + 1 + n = k + (n + 1)" by simp
        then have "(k + 1 + n) mod (n + 1) = (k + (n + 1)) mod (n + 1)" by (rule arg_cong)
        also have "\<dots> = k mod (n + 1)" by (rule mod_add_self2)
        also have "\<dots> = k" using k by simp
        finally show ?thesis .
      qed
      then show "rlink s k = k + 1 \<and> llink s (k + 1) = k" using f [of k] f [of "k + 1"] k by simp
    qed
    show "rlink s n = 0" using f [of n] n by simp
    show "llink s 0 = n" using f [of 0] n by simp
  qed
  then have hr: "hring s [1..nitems s]" using n by (simp add: hring_def N)
  show "BI s [] [] (\<lambda>c. [])" unfolding BI_def using st R hr by simp
qed

lemma BI_INV:
  assumes B: "BI s strs sp V"
  shows "INV s strs sp [1..nitems s] V"
proof -
  note st = BI_parts(1) [OF B] and c5 = BI_parts(5) [OF B]
  have live: "rowlive s [1..nitems s] ab" if "ab \<in> set sp" for ab
  proof -
    from that obtain r where r: "r < length sp" "ab = sp ! r" by (auto simp: in_set_conv_nth)
    show ?thesis
      unfolding rowlive_def using rowok_top_bounds [OF static_row [OF st r(1)]] by (simp add: r(2))
  qed
  show ?thesis
    unfolding INV_def using B live c5 unfolding BI_def by auto
qed

lemma addrows_BI:
  "BI s0 strs0 sp0 V0 \<Longrightarrow> addrows strs s0 = Inr s \<Longrightarrow>
     \<exists>sp V. BI s (strs0 @ strs) sp V \<and> nitems s = nitems s0"
proof (induction strs arbitrary: s0 strs0 sp0 V0)
  case Nil
  then show ?case by auto
next
  case (Cons str strs)
  from Cons.prems(2) obtain s1 where a: "addrow str s0 = Inr s1" and b: "addrows strs s1 = Inr s"
    by (auto split: sum.splits)
  have big: "int (length str) \<le> 2147483647"
    using addrow_big [of str s0] a by (cases "int (length str) \<le> 2147483647") simp_all
  have ok: "int (length str) \<le> nitems s0 \<and> ones str \<noteq> []"
    using addrow_fail [OF BI_parts(2,1) [OF Cons.prems(1)] big] a by auto
  from addrow_ok [OF Cons.prems(1), of str] ok big a
  obtain sp1 V1 where B1: "BI s1 (strs0 @ [str]) sp1 V1" and h: "headers s1 = headers s0"
    by auto
  from Cons.IH [OF B1 b] h show ?case by (auto simp: nitems_def)
qed

lemma build_BI:
  assumes "0 \<le> n" "build n strs = Inr s"
  shows "\<exists>sp V. BI s strs sp V \<and> nitems s = n"
proof -
  from assms(2) obtain s0 where i: "init n = Inr s0" and a: "addrows strs s0 = Inr s"
    by (auto simp: build_def split: sum.splits)
  from addrows_BI [OF init_BI(1) [OF assms(1) i] a] init_BI(2) [OF assms(1) i]
  show ?thesis by simp
qed

lemma items_from_hring:
  "dpath (rlink s) (llink s) a H 0 \<Longrightarrow> 0 \<notin> set H \<Longrightarrow> (\<forall>x \<in> set H. hvalid s x) \<Longrightarrow>
     length H < n \<Longrightarrow> items_from s n (rlink s a) = H"
proof (induction H arbitrary: a n)
  case Nil
  then show ?case by (cases n) simp_all
next
  case (Cons x H)
  then obtain m where n: "n = Suc m" by (cases n) auto
  have "items_from s m (rlink s x) = H" using Cons.prems n by (intro Cons.IH) auto
  then show ?case using Cons.prems n by simp
qed

lemma active_hring:
  assumes "hring s H"
  shows "active s = H"
proof -
  have hv: "\<forall>x \<in> set (0 # H). hvalid s x" using hring_hvalid [OF assms] by blast
  have "set H \<subseteq> {1..nitems s}" "distinct H" using assms by (auto simp: hring_def)
  then have "card (set H) \<le> card {1..nitems s}" by (intro card_mono) simp_all
  then have "length H \<le> nat (nitems s)" using \<open>distinct H\<close> by (simp add: distinct_card)
  moreover have "0 \<le> nitems s" using assms by (simp add: hring_def)
  ultimately have "length H < length (headers s)" unfolding nitems_def by linarith
  moreover have "0 \<notin> set H" using assms by (auto simp: hring_def)
  ultimately show ?thesis
    using items_from_hring [of s 0 H "length (headers s)"] assms hv by (simp add: active_def hring_def)
qed

section \<open>Reachable states satisfy the invariant\<close>

lemma reachable_INV: "reachable s \<Longrightarrow> \<exists>strs sp H V. INV s strs sp H V"
proof (induction rule: reachable.induct)
  case (built n strs s)
  from build_BI [OF built] obtain sp V where "BI s strs sp V" by blast
  from BI_INV [OF this] show ?case by blast
next
  case (covered s i s')
  then obtain strs sp H V where I: "INV s strs sp H V" by blast
  have "active s = H" by (rule active_hring [OF INV_parts(3) [OF I]])
  with covered have i: "i \<in> set H" by simp
  from cover_ok(1,3) [OF I i] covered(3) show ?case by auto
next
  case (counted s m)
  then show ?case by (auto simp: INV_ncount)
qed

section \<open>chooseitem\<close>

lemma first_min_props:
  "f (first_min f b xs) \<le> f b \<and> (\<forall>x \<in> set xs. f (first_min f b xs) \<le> f x) \<and>
   (first_min f b xs = b \<or> first_min f b xs \<in> set xs) \<and>
   (first_min f b xs \<noteq> b \<longrightarrow> f (first_min f b xs) < f b \<and>
      (\<forall>j \<in> set (takeWhile (\<lambda>j. j \<noteq> first_min f b xs) xs). f (first_min f b xs) < f j))"
proof (induction xs arbitrary: b)
  case Nil
  then show ?case by simp
next
  case (Cons x xs)
  define b' where "b' = (if f x < f b then x else b)"
  define r where "r = first_min f b' xs"
  have e: "first_min f b (x # xs) = r" by (simp add: r_def b'_def)
  note IH = Cons.IH [of b', folded r_def]
  show ?case
    unfolding e
  proof (cases "f x < f b")
    case True
    then have b': "b' = x" by (simp add: b'_def)
    show "f r \<le> f b \<and> (\<forall>y \<in> set (x # xs). f r \<le> f y) \<and> (r = b \<or> r \<in> set (x # xs)) \<and>
      (r \<noteq> b \<longrightarrow> f r < f b \<and> (\<forall>j \<in> set (takeWhile (\<lambda>j. j \<noteq> r) (x # xs)). f r < f j))"
      using IH True unfolding b' by (cases "r = x") auto
  next
    case False
    then have b': "b' = b" by (simp add: b'_def)
    show "f r \<le> f b \<and> (\<forall>y \<in> set (x # xs). f r \<le> f y) \<and> (r = b \<or> r \<in> set (x # xs)) \<and>
      (r \<noteq> b \<longrightarrow> f r < f b \<and> (\<forall>j \<in> set (takeWhile (\<lambda>j. j \<noteq> r) (x # xs)). f r < f j))"
      using IH False unfolding b' by (cases "r = x") auto
  qed
qed

lemma chooseitem_loop_ok:
  "dpath (rlink s) (llink s) a xs 0 \<Longrightarrow> 0 \<notin> set xs \<Longrightarrow>
     (\<forall>x \<in> set xs. valid s x \<and> hvalid s x) \<Longrightarrow> bestlen = len s best \<Longrightarrow>
     chooseitem_loop s (hd (xs @ [0])) best bestlen = Some (Inr (first_min (len s) best xs))"
proof (induction xs arbitrary: a best bestlen)
  case Nil
  show ?case by (subst chooseitem_loop.simps) simp
next
  case (Cons x xs)
  have nx: "rlink s x = hd (xs @ [0])" using dpath_hd [of "rlink s" "llink s" x xs 0] Cons.prems(1) by simp
  have x: "x \<noteq> 0" "valid s x" "hvalid s x" using Cons.prems by auto
  have p: "dpath (rlink s) (llink s) x xs 0" using Cons.prems(1) by simp
  show ?case
  proof (cases "len s x < bestlen")
    case True
    have "chooseitem_loop s (hd ((x # xs) @ [0])) best bestlen
        = chooseitem_loop s (hd (xs @ [0])) x (len s x)"
      using x True nx by (subst chooseitem_loop.simps) simp
    also have "\<dots> = Some (Inr (first_min (len s) x xs))"
      using Cons.prems by (intro Cons.IH [OF p]) simp_all
    finally show ?thesis using True Cons.prems(4) by simp
  next
    case False
    have "chooseitem_loop s (hd ((x # xs) @ [0])) best bestlen
        = chooseitem_loop s (hd (xs @ [0])) best bestlen"
      using x False nx by (subst chooseitem_loop.simps) simp
    also have "\<dots> = Some (Inr (first_min (len s) best xs))"
      using Cons.prems by (intro Cons.IH [OF p]) simp_all
    finally show ?thesis using False Cons.prems(4) by simp
  qed
qed

lemma chooseitem_ok:
  assumes I: "INV s strs sp H V" and H: "H \<noteq> []"
  shows "chooseitem s = Some (Inr (first_min (len s) (hd H) H))"
    and "first_min (len s) (hd H) H \<in> set H"
proof -
  note hr = INV_parts(3) [OF I] and R = INV_parts(2) [OF I]
  from hr have dp: "dpath (rlink s) (llink s) 0 H 0" and z: "0 \<notin> set H"
    by (auto simp: hring_def)
  have v: "\<forall>x \<in> set H. valid s x \<and> hvalid s x"
  proof
    fix x assume x: "x \<in> set H"
    from hring_item [OF hr x] R have "valid s x" by (simp add: RINGS_def valid_def)
    moreover have "hvalid s x" using hring_hvalid [OF hr, of x] x by simp
    ultimately show "valid s x \<and> hvalid s x" by simp
  qed
  have h0: "hvalid s 0" using hring_hvalid [OF hr] by simp
  have r0: "rlink s 0 = hd H" using dpath_hd [OF dp] H by simp
  have hv: "valid s (hd H)" using v H by simp
  show "chooseitem s = Some (Inr (first_min (len s) (hd H) H))"
    unfolding chooseitem_def
    using h0 hv chooseitem_loop_ok [OF dp z v, of "len s (hd H)" "hd H"] H
    by (simp add: r0 Let_def)
  show "first_min (len s) (hd H) H \<in> set H"
    using first_min_props [of "len s" "hd H" H] H by auto
qed

section \<open>Covering the items of a row\<close>





















section \<open>Visitor calls\<close>


lemma bindR_return: "bindR x (\<lambda>y. Some (Inr y)) = x"
  by (simp add: bindR_def split: option.splits sum.splits)

lemma bindR_cong: "(\<And>y. f y = g y) \<Longrightarrow> bindR x f = bindR x g"
  by (simp add: bindR_def split: option.splits sum.splits)




lemma map_shift: "map (\<lambda>c. snd (snd c)) (shift d cs) = map (\<lambda>c. snd (snd c)) cs"
  by (simp add: shift_def comp_def)

section \<open>Rows and options\<close>






section \<open>Exact covers\<close>









section \<open>One step of the search\<close>





section \<open>Rows of an item\<close>





section \<open>The item selections\<close>



section \<open>Traces\<close>





section \<open>Solutions\<close>

lemma rowsof_simps [simp]:
  "rowsof sp [] = {}" "rowsof sp (k # ks) = insert (rowix sp k) (rowsof sp ks)"
  by (simp_all add: rowsof_def)







section \<open>The search\<close>








section \<open>The search on a built matrix\<close>









section \<open>The worked example\<close>

text \<open>
  C4. On the 7-item instance with the options A to F appended in that order, the search
  calls the visitor exactly once; the choice stack then holds the nodes 13, 21 and 29,
  which \<open>getoption\<close> maps to the zero-based options 1, 3 and 5 (B, D, F); and the
  program writes the single line \<open>1321223\<close> and counts one solution.
\<close>

theorem C4_worked_example:
  "search_rows 7 example_rows = Some (Inr ([[13, 21, 29]], [[1, 3, 5]])) \<and>
   main example_rows = Some (Inr ([''1321223''], 1))"
  unfolding example_rows_def by code_simp

section \<open>Claims about construction\<close>

lemma init_succeeds: "n < 1073741824 \<Longrightarrow> (\<exists>s. init n = Inr s) \<longleftrightarrow> - 1 \<le> n"
  by (auto simp: init_def)

lemma init_nodes:
  "init n = Inr s \<Longrightarrow> nodes s = map (\<lambda>i. Node 0 i i) [0..n] @ [Node 0 0 0]"
  by (auto simp: init_def split: if_splits)

text \<open>
  C7, as stated, fails at item count 0: the constructor builds a matrix with the root as
  its only item slot and one spacer.
\<close>

theorem C7_counterexample:
  "init 0 = Inr \<lparr>headers = [Node 0 0 0], nodes = [Node 0 0 0, Node 0 0 0], nrows = 0, ncount = 0\<rparr>"
  by (simp add: init_def)

text \<open>
  C7, amended. The constructor has no check of the sign of the item count. For the item
  counts below \<open>2^30\<close>, where the arithmetic of its loop stays within \<open>int\<close>, it fails
  exactly for the counts below \<open>-1\<close>, so it succeeds for 0; the non-positive counts are
  rejected by the assertion of \<open>main\<close> before the constructor is called, so that the
  guarded construction of \<open>main\<close> fails exactly for the counts below 1. For every count
  \<open>n\<close> from 0 to \<open>2^30 - 1\<close> the constructor allocates \<open>n + 1\<close> item slots wired into
  one circular horizontal list (the active items are \<open>1..n\<close>,
  \<open>rlink i = (i + 1) mod (n + 1)\<close> and \<open>llink\<close> its inverse), each with length 0 and an
  empty vertical list, followed by exactly one spacer node. Nothing is stated of the counts
  from \<open>2^30\<close> on, where \<open>i + nitems\<close> overflows.
\<close>

theorem C7_construct:
  "(n < 1073741824 \<longrightarrow>
      ((\<exists>s. init n = Inr s) \<longleftrightarrow> - 1 \<le> n) \<and> ((\<exists>s. main_construct n = Inr s) \<longleftrightarrow> 1 \<le> n)) \<and>
   (0 \<le> n \<and> n < 1073741824 \<longrightarrow>
      (\<exists>s. init n = Inr s \<and> length (headers s) = nat (n + 1) \<and>
         nodes s = map (\<lambda>i. Node 0 i i) [0..n] @ [Node 0 0 0] \<and>
         active s = [1..n] \<and>
         (\<forall>i \<in> {0..n}. name s i = i \<and> rlink s i = (i + 1) mod (n + 1) \<and>
            llink s i = (i + n) mod (n + 1) \<and> len s i = 0 \<and> ulink s i = i \<and> dlink s i = i)))"
proof (intro conjI impI)
  assume b: "n < 1073741824"
  show "(\<exists>s. init n = Inr s) \<longleftrightarrow> - 1 \<le> n" by (rule init_succeeds [OF b])
  show "(\<exists>s. main_construct n = Inr s) \<longleftrightarrow> 1 \<le> n"
    using init_succeeds [OF b] by (auto simp: main_construct_def)
next
  assume n: "0 \<le> n \<and> n < 1073741824"
  from init_fields [of n] n obtain s where i: "init n = Inr s"
    and lh: "length (headers s) = nat (n + 1)"
    and f: "\<And>i. 0 \<le> i \<Longrightarrow> i \<le> n \<Longrightarrow> name s i = i \<and> llink s i = (i + n) mod (n + 1) \<and>
       rlink s i = (i + 1) mod (n + 1) \<and> top s i = 0 \<and> ulink s i = i \<and> dlink s i = i"
    by blast
  have "hring s [1..nitems s]" using BI_parts(3) [OF init_BI(1) [OF _ i]] n by simp
  then have a: "active s = [1..n]" using active_hring init_BI(2) [OF _ i] n by simp
  show "\<exists>s. init n = Inr s \<and> length (headers s) = nat (n + 1) \<and>
         nodes s = map (\<lambda>i. Node 0 i i) [0..n] @ [Node 0 0 0] \<and>
         active s = [1..n] \<and>
         (\<forall>i \<in> {0..n}. name s i = i \<and> rlink s i = (i + 1) mod (n + 1) \<and>
            llink s i = (i + n) mod (n + 1) \<and> len s i = 0 \<and> ulink s i = i \<and> dlink s i = i)"
    using i lh init_nodes [OF i] a f by (auto simp: top_len)
qed

theorem C7_construct_witness:
  "(0::int) \<le> 3 \<and> (3::int) < 1073741824 \<and>
   (\<exists>s. init 3 = Inr s \<and> main_construct 3 = Inr s \<and> length (headers s) = 4 \<and>
      active s = [1, 2, 3] \<and> rlink s 3 = 0 \<and> llink s 0 = 3 \<and> len s 2 = 0)"
proof -
  from C7_construct [of 3] obtain s where "init 3 = Inr s" "length (headers s) = nat (3 + 1)"
    "active s = [1..3]"
    "\<forall>i \<in> {0..3}. name s i = i \<and> rlink s i = (i + 1) mod (3 + 1) \<and>
       llink s i = (i + 3) mod (3 + 1) \<and> len s i = 0 \<and> ulink s i = i \<and> dlink s i = i"
    by auto
  moreover have "[1..3] = [1, 2, 3::int]" by code_simp
  ultimately show ?thesis by (auto simp: main_construct_def)
qed

section \<open>Claims about appending a row\<close>

text \<open>
  C6, as stated, fails for a row shorter than the item count: on the empty matrix of two
  items, \<open>addrow\<close> accepts the one-character row \<open>1\<close>.
\<close>

theorem C6_counterexample:
  "build 2 [''1''] =
     Inr \<lparr>headers = [Node 0 2 1, Node 1 0 2, Node 2 1 0],
          nodes = [Node 0 0 0, Node 1 4 4, Node 0 2 2, Node 0 0 4, Node 1 1 1, Node (- 1) 4 0],
          nrows = 1, ncount = 0\<rparr>"
  by code_simp

text \<open>
  C6, amended. Take a row of at most \<open>INT_MAX\<close> characters, whose length \<open>addrow\<close>
  reads as it is, and a built matrix whose node array still has room for a row within the
  32-bit indices. Then \<open>addrow\<close> aborts on a failed assertion exactly when the row is
  longer than the item count or holds no \<open>1\<close>, and in every other case it appends the
  row: a row shorter than the item count is accepted by \<open>addrow\<close> (the equal-length check
  is an assertion of \<open>main\<close>, made before the call).
\<close>

theorem C6_addrow_abort:
  assumes "0 \<le> n" "build n strs = Inr s"
    and "int (length str) \<le> 2147483647"
    and "int (length (nodes s)) + n < 2147483647"
  shows "(addrow str s = Inl AssertFail \<longleftrightarrow> n < int (length str) \<or> CHR ''1'' \<notin> set str) \<and>
         ((\<exists>s'. addrow str s = Inr s') \<longleftrightarrow> int (length str) \<le> n \<and> CHR ''1'' \<in> set str)"
proof -
  from build_BI [OF assms(1,2)] obtain sp V where B: "BI s strs sp V" and N: "nitems s = n"
    by blast
  show ?thesis
  proof (cases "int (length str) \<le> n \<and> CHR ''1'' \<in> set str")
    case True
    then have "\<exists>s'. addrow str s = Inr s'"
      using addrow_ok [OF B, of str] assms(3) by (auto simp: N ones_empty)
    then show ?thesis using True by auto
  next
    case False
    then have "addrow str s = Inl AssertFail"
      using addrow_fail [OF BI_parts(2,1) [OF B] assms(3)] by (auto simp: N ones_empty)
    then show ?thesis using False by auto
  qed
qed

theorem C6_addrow_abort_witness:
  "(0::int) \<le> 7 \<and> build 7 example_rows = Inr example_state \<and>
   int (length ''10000001'') \<le> 2147483647 \<and>
   int (length (nodes example_state)) + 7 < 2147483647 \<and>
   addrow ''0000000'' example_state = Inl AssertFail \<and>
   addrow ''10000001'' example_state = Inl AssertFail \<and>
   (\<exists>s'. addrow ''001'' example_state = Inr s')"
proof -
  have b: "build 7 example_rows = Inr example_state" by code_simp
  have z: "(0::int) \<le> 7" by simp
  have r: "int (length (nodes example_state)) + 7 < 2147483647" by code_simp
  have l: "int (length ''0000000'') \<le> 2147483647" "int (length ''10000001'') \<le> 2147483647"
    "int (length ''001'') \<le> 2147483647" by simp_all
  show ?thesis
    using C6_addrow_abort [OF z b l(1) r] C6_addrow_abort [OF z b l(2) r]
      C6_addrow_abort [OF z b l(3) r] b r by simp
qed

lemma addrow_loop_bits:
  "addrow_loop (map (\<lambda>c. if c = CHR ''1'' then CHR ''1'' else CHR ''0'') cs) i s = addrow_loop cs i s"
  by (induction cs arbitrary: i s) (simp_all add: Let_def)

lemma filter_nth_Suc:
  "filter (\<lambda>j. (c # cs) ! j = x) (map Suc ys) = map Suc (filter (\<lambda>j. cs ! j = x) ys)"
  by (induction ys) simp_all

lemma ones_from_filter:
  "ones_from i cs = map (\<lambda>j. i + int j + 1) (filter (\<lambda>j. cs ! j = CHR ''1'') [0..<length cs])"
proof (induction cs arbitrary: i)
  case Nil
  then show ?case by simp
next
  case (Cons c cs)
  have u: "[0..<length (c # cs)] = 0 # map Suc [0..<length cs]"
    by (simp add: upt_conv_Cons map_Suc_upt del: upt_Suc)
  have t: "map (\<lambda>j. i + int j + 1) (map Suc (filter (\<lambda>j. cs ! j = CHR ''1'') [0..<length cs]))
      = ones_from (i + 1) cs"
    unfolding Cons.IH [of "i + 1"] by (simp add: comp_def add.assoc add.commute)
  show ?case
    unfolding u by (simp only: filter.simps filter_nth_Suc list.map t ones_from.simps nth_Cons_0
        if_distrib [of "map _"]) simp
qed

lemma ones_from_length: "length (ones_from i cs) = count_list cs (CHR ''1'')"
  by (induction cs arbitrary: i) simp_all

lemma count_list_distinct: "distinct xs \<Longrightarrow> count_list xs x = (if x \<in> set xs then 1 else 0)"
  by (induction xs) auto

text \<open>
  C9. \<open>addrow\<close> looks at each character only to compare it with \<open>1\<close>: replacing
  every other character by \<open>0\<close> changes nothing, and no character raises an error.
  On a built matrix, an accepted row adds one node for each \<open>1\<close> and one spacer; the
  new nodes carry the 1-based positions of the \<open>1\<close>s (\<open>ones str\<close>), and exactly the
  items at those positions have their length incremented.
\<close>

theorem C9_addrow_chars:
  "addrow (map (\<lambda>c. if c = CHR ''1'' then CHR ''1'' else CHR ''0'') str) s = addrow str s \<and>
   ones str = map (\<lambda>j. int j + 1) (filter (\<lambda>j. str ! j = CHR ''1'') [0..<length str]) \<and>
   (0 \<le> n \<and> build n strs = Inr s \<and> addrow str s = Inr s' \<longrightarrow>
      length (nodes s') = length (nodes s) + count_list str (CHR ''1'') + 1 \<and>
      map (top s') [int (length (nodes s))..int (length (nodes s')) - 2] = ones str \<and>
      (\<forall>c \<in> {1..n}. len s' c = len s c + (if c \<in> set (ones str) then 1 else 0)))"
proof (intro conjI impI)
  show "addrow (map (\<lambda>c. if c = CHR ''1'' then CHR ''1'' else CHR ''0'') str) s = addrow str s"
    unfolding addrow_def addrow_loop_bits by simp
  show "ones str = map (\<lambda>j. int j + 1) (filter (\<lambda>j. str ! j = CHR ''1'') [0..<length str])"
    using ones_from_filter [of 0 str] by (simp add: ones_def)
  assume a: "0 \<le> n \<and> build n strs = Inr s \<and> addrow str s = Inr s'"
  then obtain sp V where B: "BI s strs sp V" and N: "nitems s = n" using build_BI by blast
  define L where "L = int (length (nodes s))"
  define k where "k = int (length (ones str))"
  have big: "int (length str) \<le> 2147483647"
    using addrow_big [of str s] a by (cases "int (length str) \<le> 2147483647") simp_all
  have ok: "int (length str) \<le> nitems s \<and> ones str \<noteq> []"
    using addrow_fail [OF BI_parts(2,1) [OF B] big] a by auto
  from addrow_ok [OF B, of str] ok big a
  have B': "BI s' (strs @ [str]) (sp @ [(L, L + k - 1)]) (Vapp V L (ones str))"
    and l: "length (nodes s') = length (nodes s) + length (ones str) + 1"
    and h: "headers s' = headers s"
    by (simp_all add: L_def k_def)
  show "length (nodes s') = length (nodes s) + count_list str (CHR ''1'') + 1"
    using l ones_from_length [of 0 str] by (simp add: ones_def)
  have "rowok s' str (int (length sp)) L (L + k - 1)"
    using static_row [OF BI_parts(1) [OF B'], of "length sp"] BI_parts(1) [OF B]
    by (simp add: static_def nth_append)
  then have "map (top s') [L..L + k - 1] = ones str" by (simp add: rowok_def)
  moreover have "int (length (nodes s')) - 2 = L + k - 1" using l by (simp add: L_def k_def)
  ultimately show "map (top s') [int (length (nodes s))..int (length (nodes s')) - 2] = ones str"
    by (simp add: L_def)
  show "\<forall>c \<in> {1..n}. len s' c = len s c + (if c \<in> set (ones str) then 1 else 0)"
  proof
    fix c assume c: "c \<in> {1..n}"
    have N': "nitems s' = n" using h N by (simp add: nitems_def)
    have "vring s c (V c)" using BI_parts(2) [OF B] c N by (simp add: RINGS_def)
    then have 1: "len s c = int (length (V c))" by (simp add: vring_def)
    have "vring s' c (Vapp V L (ones str) c)" using BI_parts(2) [OF B'] c N' by (simp add: RINGS_def)
    then have "len s' c = int (length (Vapp V L (ones str) c))" by (simp add: vring_def)
    then show "len s' c = len s c + (if c \<in> set (ones str) then 1 else 0)"
      using 1 by (simp add: Vapp_length count_list_distinct [OF ones_distinct])
  qed
qed

theorem C9_addrow_chars_witness:
  "(0::int) \<le> 7 \<and> build 7 example_rows = Inr example_state \<and>
   (\<exists>s'. addrow ''x1a01'' example_state = Inr s' \<and>
      addrow ''01001'' example_state = Inr s' \<and>
      length (nodes s') = length (nodes example_state) + 3 \<and>
      len s' 2 = len example_state 2 + 1 \<and> len s' 3 = len example_state 3)"
proof -
  have b: "build 7 example_rows = Inr example_state" by code_simp
  have z: "(0::int) \<le> 7" by simp
  obtain s' where s': "addrow ''x1a01'' example_state = Inr s'"
    by (cases "addrow ''x1a01'' example_state") (simp_all, code_simp)
  have o: "ones ''x1a01'' = [2, 5]" by code_simp
  have m: "map (\<lambda>c. if c = CHR ''1'' then CHR ''1'' else CHR ''0'') ''x1a01'' = ''01001''" by simp
  from C9_addrow_chars [of "''x1a01''" example_state 7 example_rows s'] z b s'
  have "addrow ''01001'' example_state = addrow ''x1a01'' example_state"
    and "length (nodes s') = length (nodes example_state) + count_list ''x1a01'' (CHR ''1'') + 1"
    and "\<forall>c \<in> {1..7}. len s' c = len example_state c + (if c \<in> set (ones ''x1a01'') then 1 else 0)"
    unfolding m by blast+
  then show ?thesis using z b s' o by simp
qed

section \<open>Claims about covering and choosing\<close>



text \<open>
  C5. In every reachable state with an active item, \<open>chooseitem\<close> returns an active
  item whose length is minimal among the active items, and every active item before it in
  the horizontal list has a strictly greater length.
\<close>

theorem C5_chooseitem:
  assumes "reachable s" "active s \<noteq> []"
  shows "\<exists>i. chooseitem s = Some (Inr i) \<and> i \<in> set (active s) \<and>
           (\<forall>j \<in> set (active s). len s i \<le> len s j) \<and>
           (\<forall>j \<in> set (takeWhile (\<lambda>j. j \<noteq> i) (active s)). len s i < len s j)"
proof -
  from reachable_INV [OF assms(1)] obtain strs sp H V where I: "INV s strs sp H V" by blast
  have a: "active s = H" by (rule active_hring [OF INV_parts(3) [OF I]])
  with assms(2) obtain x xs where H: "H = x # xs" by (cases H) auto
  define r where "r = first_min (len s) x H"
  have c: "chooseitem s = Some (Inr r)" "r \<in> set H"
    using chooseitem_ok [OF I] H by (simp_all add: r_def)
  have e: "r = first_min (len s) x xs" by (simp add: r_def H)
  note P = first_min_props [of "len s" x xs, folded e]
  have "\<forall>j \<in> set H. len s r \<le> len s j" using P by (simp add: H)
  moreover have "\<forall>j \<in> set (takeWhile (\<lambda>j. j \<noteq> r) H). len s r < len s j"
    using P by (cases "r = x") (auto simp: H)
  ultimately show ?thesis using c a by blast
qed

theorem C5_chooseitem_witness:
  "reachable example_state \<and> active example_state \<noteq> [] \<and>
   chooseitem example_state = Some (Inr 1) \<and> 1 \<in> set (active example_state) \<and>
   len example_state 1 \<le> len example_state 7"
proof -
  have b: "build 7 example_rows = Inr example_state" by code_simp
  have r: "reachable example_state" by (rule reachable.built [OF _ b]) simp
  have a: "active example_state \<noteq> []" by code_simp
  have c: "chooseitem example_state = Some (Inr 1)" by code_simp
  have m: "7 \<in> set (active example_state)" by code_simp
  from C5_chooseitem [OF r a] c m r a show ?thesis by auto
qed

section \<open>Claims about the search\<close>









end
